theory Spec2Isabelle
  imports Main
begin

section \<open>The Redis primitives the server calls\<close>

text \<open>
  The server of \<^verbatim>\<open>GAMEPLAN-TECHNICAL-REFERENCE.md\<close> (\<^verbatim>\<open>/services/server/server.ts\<close>)
  talks to Redis through \<^verbatim>\<open>xAdd\<close>, \<^verbatim>\<open>xRead\<close>, \<^verbatim>\<open>incr\<close>, \<^verbatim>\<open>expire\<close>,
  \<^verbatim>\<open>get\<close>, \<^verbatim>\<open>set\<close> and \<^verbatim>\<open>publish\<close>. Redis itself is an external store; the
  definitions of this section give the documented behaviour of these commands.
  Times are milliseconds (\<^verbatim>\<open>Date.now()\<close>).
\<close>

subsection \<open>Streams\<close>

text \<open>
  A stream id is \<^verbatim>\<open>ms-seq\<close>; ids compare by \<^verbatim>\<open>ms\<close> first and \<^verbatim>\<open>seq\<close> second.
\<close>

type_synonym stream_id = "nat \<times> nat"

fun id_lt :: "stream_id \<Rightarrow> stream_id \<Rightarrow> bool" where
  "id_lt (m1, s1) (m2, s2) = (m1 < m2 \<or> (m1 = m2 \<and> s1 < s2))"

type_synonym 'f stream = "(stream_id \<times> 'f) list"

definition last_id :: "'f stream \<Rightarrow> stream_id" where
  "last_id s = (case s of [] \<Rightarrow> (0, 0) | _ \<Rightarrow> fst (last s))"

text \<open>
  \<^verbatim>\<open>XADD key * ...\<close>: the generated id takes the clock's milliseconds when they are
  beyond the stream's last id, and otherwise the last id with its sequence number
  incremented.
\<close>

definition next_id :: "stream_id \<Rightarrow> nat \<Rightarrow> stream_id" where
  "next_id l now = (if fst l < now then (now, 0) else (fst l, Suc (snd l)))"

definition xAdd :: "nat \<Rightarrow> 'f stream \<Rightarrow> 'f \<Rightarrow> 'f stream \<times> stream_id" where
  "xAdd now s f = (let i = next_id (last_id s) now in (s @ [(i, f)], i))"

text \<open>
  \<^verbatim>\<open>XREAD COUNT n STREAMS key id\<close> without \<^verbatim>\<open>BLOCK\<close>: the first \<open>n\<close> entries whose id
  is greater than \<open>id\<close>, or \<^verbatim>\<open>null\<close> when there is none.
\<close>

definition xRead :: "'f stream \<Rightarrow> stream_id \<Rightarrow> nat \<Rightarrow> (stream_id \<times> 'f) list option" where
  "xRead s i n =
     (let r = take n (filter (\<lambda>e. id_lt i (fst e)) s)
      in if r = [] then None else Some r)"

subsection \<open>Keys with a time to live\<close>

datatype key = RateKey string | DedupKey "string list"

text \<open>A stored value with the time at which it expires, when it has one.\<close>

type_synonym kv = "key \<Rightarrow> (nat \<times> nat option) option"

fun expired :: "nat \<Rightarrow> nat option \<Rightarrow> bool" where
  "expired now None = False"
| "expired now (Some t) = (t < now)"

definition live :: "nat \<Rightarrow> kv \<Rightarrow> key \<Rightarrow> (nat \<times> nat option) option" where
  "live now m k =
     (case m k of None \<Rightarrow> None
      | Some (v, ex) \<Rightarrow> if expired now ex then None else Some (v, ex))"

definition kv_get :: "nat \<Rightarrow> kv \<Rightarrow> key \<Rightarrow> nat option" where
  "kv_get now m k = map_option fst (live now m k)"

definition incr :: "nat \<Rightarrow> kv \<Rightarrow> key \<Rightarrow> kv \<times> nat" where
  "incr now m k =
     (case live now m k of
        None \<Rightarrow> (m(k \<mapsto> (1, None)), 1)
      | Some (v, ex) \<Rightarrow> (m(k \<mapsto> (Suc v, ex)), Suc v))"

definition expire :: "nat \<Rightarrow> kv \<Rightarrow> key \<Rightarrow> nat \<Rightarrow> kv" where
  "expire now m k secs =
     (case live now m k of
        None \<Rightarrow> m
      | Some (v, ex) \<Rightarrow> m(k \<mapsto> (v, Some (now + secs * 1000))))"

definition set_ex :: "nat \<Rightarrow> kv \<Rightarrow> key \<Rightarrow> nat \<Rightarrow> nat \<Rightarrow> kv" where
  "set_ex now m k v secs = m(k \<mapsto> (v, Some (now + secs * 1000)))"

section \<open>The server: \<^verbatim>\<open>followup:create\<close> and \<^verbatim>\<open>request:replay\<close>\<close>

text \<open>The shared types of \<^verbatim>\<open>/packages/shared/src/types.ts\<close>.\<close>

record FollowUpPayload =
  items :: "string list"
  createdAt :: nat

record AgentQuestions =
  aq_text :: string
  aq_createdAt :: nat
  streamId :: "stream_id option"

text \<open>The fields of an entry of \<^verbatim>\<open>followups:stream\<close> and of \<^verbatim>\<open>questions:stream\<close>.\<close>

record followup_fields =
  f_items :: "string list"
  f_createdAt :: nat
  f_socketId :: string

record question_fields =
  q_text :: string
  q_createdAt :: nat

text \<open>
  The state the handlers share: the keys, the two streams, and the messages published
  on \<^verbatim>\<open>questions:live\<close>.
\<close>

record server =
  kvs :: kv
  followups :: "followup_fields stream"
  questions :: "question_fields stream"
  published :: "AgentQuestions list"

definition server0 :: server where
  "server0 = \<lparr>kvs = Map.empty, followups = [], questions = [], published = []\<rparr>"

text \<open>
  What a handler does besides changing the state, in the order it does it: the Redis
  commands it issues (a command that throws is still issued), the call of the
  generation backend, and the events it emits, to one socket (\<^verbatim>\<open>socket.emit\<close>) or
  to every connected client (\<^verbatim>\<open>app.io.emit\<close>).
\<close>

datatype cmd = INCR | EXPIRE | GET | SET | XADD_followups | XADD_questions | PUBLISH | XREAD

datatype effect =
    Redis cmd
  | OpenAI
  | ToSocket string AgentQuestions
  | ToAll AgentQuestions

text \<open>
  The branch a run of \<^verbatim>\<open>followup:create\<close> ends in: one of the five early returns,
  the broadcast at the end of the \<^verbatim>\<open>try\<close> block, or the \<^verbatim>\<open>catch\<close> block.
\<close>

datatype outcome =
    EmptyInput | TooManyItems | TooManyCharacters | RateLimited | Duplicate
  | Broadcast | Caught

text \<open>
  The answer of \<^verbatim>\<open>openai.chat.completions.create\<close>: it throws, or it returns a
  message whose content is a string or \<^verbatim>\<open>null\<close>.
\<close>

datatype completion = ApiError | Content "string option"

text \<open>
  What a run of a handler gets from outside: the clock (one reading for the whole run),
  the outcome of the backend call, and the position of the Redis command whose call
  throws, if one does. The commands of \<^verbatim>\<open>followup:create\<close> are numbered in the order
  it issues them: 0 \<^verbatim>\<open>incr\<close>, 1 \<^verbatim>\<open>expire\<close>, 2 \<^verbatim>\<open>get\<close>, 3 \<^verbatim>\<open>set\<close>, 4 \<^verbatim>\<open>xAdd\<close> to
  \<^verbatim>\<open>followups:stream\<close>, 5 \<^verbatim>\<open>xAdd\<close> to \<^verbatim>\<open>questions:stream\<close>, 6 \<^verbatim>\<open>publish\<close>; the
  one command of \<^verbatim>\<open>request:replay\<close> is 0. The handler sees of a client library only
  whether a call returns or throws: a Redis client that holds a command back while it
  is disconnected and completes it later is a command that returns, and a backend
  client that sends a request again before it gives up throws once.
\<close>

record env =
  now :: nat
  openai :: completion
  redis_fail :: "nat option"

definition apology :: "env \<Rightarrow> AgentQuestions" where
  "apology e =
     \<lparr>aq_text = ''Sorry, I encountered an error generating questions.'',
      aq_createdAt = now e, streamId = None\<rparr>"

text \<open>
  The three shape checks, in the order of the handler. The length of the joined items
  is the number of characters of the model's strings (the source counts UTF-16 code
  units).
\<close>

definition validate :: "FollowUpPayload \<Rightarrow> outcome option" where
  "validate d =
     (if length (items d) = 0 then Some EmptyInput
      else if length (items d) > 8 then Some TooManyItems
      else if length (concat (items d)) > 300 then Some TooManyCharacters
      else None)"

text \<open>
  The rate limiting snippet: \<^verbatim>\<open>incr\<close>, then \<^verbatim>\<open>expire(key, 60)\<close>, then the test
  \<^verbatim>\<open>count > 10\<close>.
\<close>

definition rate_limit :: "env \<Rightarrow> string \<Rightarrow> server \<Rightarrow> server \<times> effect list \<times> outcome option" where
  "rate_limit e sid s =
     (if redis_fail e = Some 0 then (s, [Redis INCR], Some Caught)
      else
        let (m1, count) = incr (now e) (kvs s) (RateKey sid) in
        if redis_fail e = Some 1
        then (s\<lparr>kvs := m1\<rparr>, [Redis INCR, Redis EXPIRE], Some Caught)
        else
          let m2 = expire (now e) m1 (RateKey sid) 60 in
          (s\<lparr>kvs := m2\<rparr>, [Redis INCR, Redis EXPIRE],
           if count > 10 then Some RateLimited else None))"

text \<open>
  The deduplication snippet. The key is the base64 text of \<^verbatim>\<open>JSON.stringify(data.items)\<close>,
  which determines the item list; the key is modelled by the item list itself.
\<close>

definition dedupe :: "env \<Rightarrow> FollowUpPayload \<Rightarrow> server \<Rightarrow> server \<times> effect list \<times> outcome option" where
  "dedupe e d s =
     (if redis_fail e = Some 2 then (s, [Redis GET], Some Caught)
      else
        case kv_get (now e) (kvs s) (DedupKey (items d)) of
          Some v \<Rightarrow> (s, [Redis GET], Some Duplicate)
        | None \<Rightarrow>
            if redis_fail e = Some 3 then (s, [Redis GET, Redis SET], Some Caught)
            else (s\<lparr>kvs := set_ex (now e) (kvs s) (DedupKey (items d)) 1 300\<rparr>,
                  [Redis GET, Redis SET], None))"

definition aiText :: "string option \<Rightarrow> string" where
  "aiText c = (case c of None \<Rightarrow> ''No response''
               | Some t \<Rightarrow> if t = [] then ''No response'' else t)"

text \<open>
  The rest of the \<^verbatim>\<open>try\<close> block: the raw submission is stored, the backend is
  called, the answer is stored in \<^verbatim>\<open>questions:stream\<close>, published and broadcast.
\<close>

definition generate :: "env \<Rightarrow> string \<Rightarrow> FollowUpPayload \<Rightarrow> server \<Rightarrow> server \<times> effect list \<times> outcome" where
  "generate e sid d s =
     (if redis_fail e = Some 4 then (s, [Redis XADD_followups], Caught)
      else
        let (f1, fid) = xAdd (now e) (followups s)
               \<lparr>f_items = items d, f_createdAt = createdAt d, f_socketId = sid\<rparr>;
            s1 = s\<lparr>followups := f1\<rparr>
        in case openai e of
             ApiError \<Rightarrow> (s1, [Redis XADD_followups, OpenAI], Caught)
           | Content c \<Rightarrow>
               if redis_fail e = Some 5
               then (s1, [Redis XADD_followups, OpenAI, Redis XADD_questions], Caught)
               else
                 let (q1, qid) = xAdd (now e) (questions s1)
                        \<lparr>q_text = aiText c, q_createdAt = now e\<rparr>;
                     s2 = s1\<lparr>questions := q1\<rparr>;
                     ev = \<lparr>aq_text = aiText c, aq_createdAt = now e, streamId = Some qid\<rparr>
                 in if redis_fail e = Some 6
                    then (s2, [Redis XADD_followups, OpenAI, Redis XADD_questions,
                               Redis PUBLISH], Caught)
                    else (s2\<lparr>published := published s2 @ [ev]\<rparr>,
                          [Redis XADD_followups, OpenAI, Redis XADD_questions,
                           Redis PUBLISH, ToAll ev], Broadcast))"

text \<open>
  The handler of \<^verbatim>\<open>followup:create\<close> on the socket \<open>sid\<close>, with the rate limiting and
  deduplication snippets after the validation. The \<^verbatim>\<open>catch\<close> block emits the
  apology to the requesting socket.
\<close>

definition catch :: "env \<Rightarrow> string \<Rightarrow> outcome \<Rightarrow> effect list" where
  "catch e sid r = (if r = Caught then [ToSocket sid (apology e)] else [])"

definition followup_create :: "env \<Rightarrow> string \<Rightarrow> FollowUpPayload \<Rightarrow> server \<Rightarrow> server \<times> effect list \<times> outcome" where
  "followup_create e sid d s =
     (case validate d of
        Some r \<Rightarrow> (s, [], r)
      | None \<Rightarrow>
          (case rate_limit e sid s of
             (s1, t1, Some r) \<Rightarrow> (s1, t1 @ catch e sid r, r)
           | (s1, t1, None) \<Rightarrow>
               (case dedupe e d s1 of
                  (s2, t2, Some r) \<Rightarrow> (s2, t1 @ t2 @ catch e sid r, r)
                | (s2, t2, None) \<Rightarrow>
                    (case generate e sid d s2 of
                       (s3, t3, r) \<Rightarrow> (s3, t1 @ t2 @ t3 @ catch e sid r, r)))))"

text \<open>
  The handler of \<^verbatim>\<open>request:replay\<close>: one \<^verbatim>\<open>xRead\<close> with \<^verbatim>\<open>COUNT: 100\<close> from
  \<^verbatim>\<open>lastStreamId || '0'\<close>, and one event to the requesting socket for each entry
  read. Its \<^verbatim>\<open>catch\<close> block only logs.
\<close>

definition replay_event :: "stream_id \<times> question_fields \<Rightarrow> AgentQuestions" where
  "replay_event m = \<lparr>aq_text = q_text (snd m), aq_createdAt = q_createdAt (snd m),
                      streamId = Some (fst m)\<rparr>"

definition request_replay :: "env \<Rightarrow> string \<Rightarrow> stream_id option \<Rightarrow> server \<Rightarrow> effect list" where
  "request_replay e sid lastStreamId s =
     (if redis_fail e = Some 0 then [Redis XREAD]
      else
        case xRead (questions s) (case lastStreamId of None \<Rightarrow> (0, 0) | Some i \<Rightarrow> i) 100 of
          None \<Rightarrow> [Redis XREAD]
        | Some messages \<Rightarrow> Redis XREAD # map (\<lambda>m. ToSocket sid (replay_event m)) messages)"

section \<open>The participant: \<^verbatim>\<open>/apps/participant/src/App.tsx\<close>\<close>

datatype status = Disconnected | Ready | Speaking

text \<open>
  \<^verbatim>\<open>window.speechSynthesis\<close> is modelled by the utterances handed to
  \<^verbatim>\<open>speechSynthesis.speak\<close> whose \<^verbatim>\<open>onend\<close> or \<^verbatim>\<open>onerror\<close> has not fired yet, and
  by the record of what began and finished rendering, in order.
\<close>

datatype render = Begin string | Finish string

record participant =
  pstatus :: status
  messages :: "AgentQuestions list"
  lastStreamId :: "stream_id option"
  speakQueue :: "string list"
  isSpeaking :: bool
  utterances :: "string list"
  rendered :: "render list"

definition participant0 :: participant where
  "participant0 =
     \<lparr>pstatus = Disconnected, messages = [], lastStreamId = None, speakQueue = [],
      isSpeaking = False, utterances = [], rendered = []\<rparr>"

definition processQueue :: "participant \<Rightarrow> participant" where
  "processQueue p =
     (if isSpeaking p \<or> length (speakQueue p) = 0 then p
      else
        case speakQueue p of
          [] \<Rightarrow> p
        | t # q \<Rightarrow>
            p\<lparr>isSpeaking := True, pstatus := Speaking, speakQueue := q,
              utterances := utterances p @ [t], rendered := rendered p @ [Begin t]\<rparr>)"

definition speak :: "string \<Rightarrow> participant \<Rightarrow> participant" where
  "speak t p = processQueue (p\<lparr>speakQueue := speakQueue p @ [t]\<rparr>)"

text \<open>
  The callbacks of an utterance fire for an utterance that was handed to
  \<^verbatim>\<open>speechSynthesis.speak\<close>; with none in flight there is no callback to run.
\<close>

definition onend :: "participant \<Rightarrow> participant" where
  "onend p =
     (case utterances p of
        [] \<Rightarrow> p
      | u # us \<Rightarrow>
          processQueue
            (p\<lparr>utterances := us, rendered := rendered p @ [Finish u], isSpeaking := False,
               pstatus := (if length (speakQueue p) = 0 then Ready else pstatus p)\<rparr>))"

definition onerror :: "participant \<Rightarrow> participant" where
  "onerror p =
     (case utterances p of
        [] \<Rightarrow> p
      | u # us \<Rightarrow>
          processQueue
            (p\<lparr>utterances := us, rendered := rendered p @ [Finish u], isSpeaking := False,
               pstatus := Ready\<rparr>))"

text \<open>The handler of \<^verbatim>\<open>agent:questions\<close>.\<close>

definition on_agent_questions :: "AgentQuestions \<Rightarrow> participant \<Rightarrow> participant" where
  "on_agent_questions data p =
     (let p1 = speak (aq_text data) (p\<lparr>messages := messages p @ [data]\<rparr>)
      in case streamId data of
           Some i \<Rightarrow> p1\<lparr>lastStreamId := Some i\<rparr>
         | None \<Rightarrow> p1)"

text \<open>
  The handler of \<^verbatim>\<open>connect\<close> sets the status and emits \<^verbatim>\<open>request:replay\<close> with
  the last stream id; the handler of \<^verbatim>\<open>disconnect\<close> sets the status.
\<close>

definition on_connect :: "participant \<Rightarrow> participant \<times> stream_id option" where
  "on_connect p = (p\<lparr>pstatus := Ready\<rparr>, lastStreamId p)"

definition on_disconnect :: "participant \<Rightarrow> participant" where
  "on_disconnect p = p\<lparr>pstatus := Disconnected\<rparr>"

text \<open>What can happen to the playback queue, and a run of such events.\<close>

datatype playback = Enqueue string | RenderEnd | RenderError

fun playback_step :: "participant \<Rightarrow> playback \<Rightarrow> participant" where
  "playback_step p (Enqueue t) = speak t p"
| "playback_step p RenderEnd = onend p"
| "playback_step p RenderError = onerror p"

definition playback_run :: "playback list \<Rightarrow> participant" where
  "playback_run evs = foldl playback_step participant0 evs"

fun enqueued :: "playback list \<Rightarrow> string list" where
  "enqueued [] = []"
| "enqueued (Enqueue t # evs) = t # enqueued evs"
| "enqueued (_ # evs) = enqueued evs"

fun begun :: "render list \<Rightarrow> string list" where
  "begun [] = []"
| "begun (Begin t # r) = t # begun r"
| "begun (Finish t # r) = begun r"

text \<open>
  \<open>no_overlap cur r\<close>: starting with \<open>cur\<close> rendering (or nothing), the record \<open>r\<close>
  never begins an item while another one is rendering, and finishes only the item
  that is rendering.
\<close>

fun no_overlap :: "string option \<Rightarrow> render list \<Rightarrow> bool" where
  "no_overlap cur [] = True"
| "no_overlap None (Begin t # r) = no_overlap (Some t) r"
| "no_overlap (Some u) (Begin t # r) = False"
| "no_overlap (Some u) (Finish t # r) = (u = t \<and> no_overlap None r)"
| "no_overlap None (Finish t # r) = False"

fun rendering :: "string option \<Rightarrow> render list \<Rightarrow> string option" where
  "rendering cur [] = cur"
| "rendering cur (Begin t # r) = rendering (Some t) r"
| "rendering cur (Finish t # r) = rendering None r"

section \<open>Runs of the server and sessions of a participant\<close>

definition state_of :: "server \<times> effect list \<times> outcome \<Rightarrow> server" where
  "state_of r = fst r"

definition trace_of :: "server \<times> effect list \<times> outcome \<Rightarrow> effect list" where
  "trace_of r = fst (snd r)"

definition outcome_of :: "server \<times> effect list \<times> outcome \<Rightarrow> outcome" where
  "outcome_of r = snd (snd r)"

text \<open>
  Requests handled one handler run after the other, each run from its start to its end
  with no step of another handler in between. Handlers whose steps interleave are the
  subject of the section on handlers in flight.
\<close>

datatype request =
    FollowUp env string FollowUpPayload
  | Replay env string "stream_id option"

fun serve :: "server \<Rightarrow> request \<Rightarrow> server" where
  "serve s (FollowUp e sid d) = state_of (followup_create e sid d s)"
| "serve s (Replay e sid l) = s"

definition serve_all :: "server \<Rightarrow> request list \<Rightarrow> server" where
  "serve_all s rs = foldl serve s rs"

fun req_env :: "request \<Rightarrow> env" where
  "req_env (FollowUp e sid d) = e"
| "req_env (Replay e sid l) = e"

text \<open>The events of a trace, and those of them that reach the socket \<open>sid\<close>.\<close>

fun events :: "effect list \<Rightarrow> AgentQuestions list" where
  "events [] = []"
| "events (ToSocket sid ev # t) = ev # events t"
| "events (ToAll ev # t) = ev # events t"
| "events (_ # t) = events t"

fun delivered :: "string \<Rightarrow> effect list \<Rightarrow> AgentQuestions list" where
  "delivered sid [] = []"
| "delivered sid (ToSocket sid' ev # t) =
     (if sid' = sid then ev # delivered sid t else delivered sid t)"
| "delivered sid (ToAll ev # t) = ev # delivered sid t"
| "delivered sid (_ # t) = delivered sid t"

text \<open>A topic after the entries \<open>xs\<close> (each with the clock at its append) were appended.\<close>

definition appended :: "(nat \<times> 'f) list \<Rightarrow> 'f stream" where
  "appended xs = foldl (\<lambda>s x. fst (xAdd (fst x) s (snd x))) [] xs"

text \<open>The entries a read from \<open>l\<close> (\<^verbatim>\<open>null\<close> is read as \<^verbatim>\<open>'0'\<close>) selects.\<close>

definition newer :: "stream_id option \<Rightarrow> 'f stream \<Rightarrow> 'f stream" where
  "newer l q = filter (\<lambda>m. id_lt (case l of None \<Rightarrow> (0, 0) | Some i \<Rightarrow> i) (fst m)) q"

text \<open>The window count of a socket as a command issued at time \<open>t\<close> sees it.\<close>

definition count_of :: "nat \<Rightarrow> server \<Rightarrow> string \<Rightarrow> nat" where
  "count_of t s sid = (case kv_get t (kvs s) (RateKey sid) of None \<Rightarrow> 0 | Some c \<Rightarrow> c)"

text \<open>A request that reaches the counter of \<open>sid\<close>: a submission on \<open>sid\<close> that passes the shape checks.\<close>

fun counted :: "string \<Rightarrow> request \<Rightarrow> bool" where
  "counted sid (FollowUp e sid' d) = (sid' = sid \<and> validate d = None)"
| "counted sid (Replay e sid' l) = False"

text \<open>A request handled with the store reachable, at a time in the 60 seconds from \<open>t0\<close>.\<close>

definition within :: "nat \<Rightarrow> request \<Rightarrow> bool" where
  "within t0 r =
     (redis_fail (req_env r) = None \<and> t0 \<le> now (req_env r) \<and> now (req_env r) < t0 + 60000)"

fun on_socket :: "string \<Rightarrow> request \<Rightarrow> bool" where
  "on_socket sid (FollowUp e sid' d) = (sid' = sid)"
| "on_socket sid (Replay e sid' l) = False"

fun submits :: "string list \<Rightarrow> request \<Rightarrow> bool" where
  "submits its (FollowUp e sid d) = (items d = its)"
| "submits its (Replay e sid l) = False"

text \<open>
  The participant on socket \<open>sid\<close> receives the events of a trace that reach its socket,
  in their order.
\<close>

definition receive :: "string \<Rightarrow> effect list \<Rightarrow> participant \<Rightarrow> participant" where
  "receive sid t p = foldl (\<lambda>p ev. on_agent_questions ev p) p (delivered sid t)"

text \<open>
  What holds of the participant's playback state after every event: the record of
  renderings never overlaps, the utterances in flight are the one that is rendering, the
  flag says whether one is, and the queue is empty whenever none is.
\<close>

definition playback_inv :: "participant \<Rightarrow> bool" where
  "playback_inv p =
     (no_overlap None (rendered p) \<and>
      utterances p = (case rendering None (rendered p) of None \<Rightarrow> [] | Some t \<Rightarrow> [t]) \<and>
      isSpeaking p = (utterances p \<noteq> []) \<and>
      (isSpeaking p \<or> speakQueue p = []))"

text \<open>The event the handler broadcasts when it reaches the end of its \<^verbatim>\<open>try\<close> block.\<close>

definition live_event :: "env \<Rightarrow> server \<Rightarrow> AgentQuestions" where
  "live_event e s =
     \<lparr>aq_text = aiText (case openai e of Content c \<Rightarrow> c | ApiError \<Rightarrow> None),
      aq_createdAt = now e,
      streamId = Some (next_id (last_id (questions s)) (now e))\<rparr>"

text \<open>The state with the rate counter of the socket \<open>sid'\<close> replaced by \<open>v\<close>.\<close>

definition with_counter :: "string \<Rightarrow> (nat \<times> nat option) option \<Rightarrow> server \<Rightarrow> server" where
  "with_counter sid' v s = s\<lparr>kvs := (kvs s)(RateKey sid' := v)\<rparr>"

section \<open>Handlers in flight\<close>

text \<open>
  An \<^verbatim>\<open>async\<close> handler gives up control at every \<^verbatim>\<open>await\<close>, and the steps of other
  handlers can happen in between. A run of \<^verbatim>\<open>followup:create\<close> that has passed the
  shape checks waits, in turn, for \<^verbatim>\<open>incr\<close>, \<^verbatim>\<open>expire\<close>, \<^verbatim>\<open>get\<close>, \<^verbatim>\<open>set\<close>,
  \<^verbatim>\<open>xAdd\<close> (follow-ups), the backend, \<^verbatim>\<open>xAdd\<close> (questions) and \<^verbatim>\<open>publish\<close>. A
  position records what the run waits for and the local values it carries on:
  \<^verbatim>\<open>count\<close>, \<^verbatim>\<open>aiText\<close>, \<^verbatim>\<open>streamId\<close>.
\<close>

datatype pc =
    AwaitIncr
  | AwaitExpire nat
  | AwaitGet
  | AwaitSet
  | AwaitXAddFollowups
  | AwaitOpenAI
  | AwaitXAddQuestions string
  | AwaitPublish string stream_id

text \<open>
  One step of a run: the awaited operation completes (or throws) and the handler's code
  runs on to its next \<^verbatim>\<open>await\<close>, to a \<^verbatim>\<open>return\<close>, or through the \<^verbatim>\<open>catch\<close> block.
  The environment is the one of this step; its \<open>redis_fail\<close> names the command that
  throws by its number in the handler. The server holds one Redis client, whose
  replies come back in the order in which the commands were executed, so the handlers
  continue in that order and a step is the command together with the code that
  follows it.
\<close>

fun advance :: "env \<Rightarrow> string \<Rightarrow> FollowUpPayload \<Rightarrow> pc \<Rightarrow> server \<Rightarrow> server \<times> effect list \<times> (pc + outcome)" where
  "advance e sid d AwaitIncr s =
     (if redis_fail e = Some 0 then (s, [Redis INCR, ToSocket sid (apology e)], Inr Caught)
      else
        let (m1, count) = incr (now e) (kvs s) (RateKey sid)
        in (s\<lparr>kvs := m1\<rparr>, [Redis INCR], Inl (AwaitExpire count)))"
| "advance e sid d (AwaitExpire count) s =
     (if redis_fail e = Some 1 then (s, [Redis EXPIRE, ToSocket sid (apology e)], Inr Caught)
      else (s\<lparr>kvs := expire (now e) (kvs s) (RateKey sid) 60\<rparr>, [Redis EXPIRE],
            if count > 10 then Inr RateLimited else Inl AwaitGet))"
| "advance e sid d AwaitGet s =
     (if redis_fail e = Some 2 then (s, [Redis GET, ToSocket sid (apology e)], Inr Caught)
      else
        case kv_get (now e) (kvs s) (DedupKey (items d)) of
          Some v \<Rightarrow> (s, [Redis GET], Inr Duplicate)
        | None \<Rightarrow> (s, [Redis GET], Inl AwaitSet))"
| "advance e sid d AwaitSet s =
     (if redis_fail e = Some 3 then (s, [Redis SET, ToSocket sid (apology e)], Inr Caught)
      else (s\<lparr>kvs := set_ex (now e) (kvs s) (DedupKey (items d)) 1 300\<rparr>, [Redis SET],
            Inl AwaitXAddFollowups))"
| "advance e sid d AwaitXAddFollowups s =
     (if redis_fail e = Some 4
      then (s, [Redis XADD_followups, ToSocket sid (apology e)], Inr Caught)
      else
        let (f1, fid) = xAdd (now e) (followups s)
               \<lparr>f_items = items d, f_createdAt = createdAt d, f_socketId = sid\<rparr>
        in (s\<lparr>followups := f1\<rparr>, [Redis XADD_followups], Inl AwaitOpenAI))"
| "advance e sid d AwaitOpenAI s =
     (case openai e of
        ApiError \<Rightarrow> (s, [OpenAI, ToSocket sid (apology e)], Inr Caught)
      | Content c \<Rightarrow> (s, [OpenAI], Inl (AwaitXAddQuestions (aiText c))))"
| "advance e sid d (AwaitXAddQuestions t) s =
     (if redis_fail e = Some 5
      then (s, [Redis XADD_questions, ToSocket sid (apology e)], Inr Caught)
      else
        let (q1, qid) = xAdd (now e) (questions s) \<lparr>q_text = t, q_createdAt = now e\<rparr>
        in (s\<lparr>questions := q1\<rparr>, [Redis XADD_questions], Inl (AwaitPublish t qid)))"
| "advance e sid d (AwaitPublish t qid) s =
     (if redis_fail e = Some 6 then (s, [Redis PUBLISH, ToSocket sid (apology e)], Inr Caught)
      else
        let ev = \<lparr>aq_text = t, aq_createdAt = now e, streamId = Some qid\<rparr>
        in (s\<lparr>published := published s @ [ev]\<rparr>, [Redis PUBLISH, ToAll ev], Inr Broadcast))"

fun rank :: "pc \<Rightarrow> nat" where
  "rank AwaitIncr = 0"
| "rank (AwaitExpire count) = 1"
| "rank AwaitGet = 2"
| "rank AwaitSet = 3"
| "rank AwaitXAddFollowups = 4"
| "rank AwaitOpenAI = 5"
| "rank (AwaitXAddQuestions t) = 6"
| "rank (AwaitPublish t qid) = 7"

text \<open>A run from a position to its end with nothing in between and one environment.\<close>

function finish :: "env \<Rightarrow> string \<Rightarrow> FollowUpPayload \<Rightarrow> pc \<Rightarrow> server \<Rightarrow> server \<times> effect list \<times> outcome" where
  "finish e sid d p s =
     (let r = advance e sid d p s
      in case snd (snd r) of
           Inr out \<Rightarrow> (fst r, fst (snd r), out)
         | Inl p' \<Rightarrow>
             (let r' = finish e sid d p' (fst r)
              in (fst r', fst (snd r) @ fst (snd r'), snd (snd r'))))"
  by pat_completeness auto
termination
proof (relation "measure (\<lambda>(e, sid, d, p, s). 8 - rank p)")
  show "wf (measure (\<lambda>(e, sid, d, p, s). 8 - rank p))"
    by simp
next
  fix e :: env and sid :: string and d :: FollowUpPayload and p :: pc and s :: server
    and r p'
  assume "r = advance e sid d p s" and "snd (snd r) = Inl p'"
  then have "rank p' = Suc (rank p) \<and> rank p < 8"
    by (cases p) (auto simp: Let_def case_prod_beta split: if_splits option.splits completion.splits)
  then show "((e, sid, d, p', fst r), e, sid, d, p, s) \<in> measure (\<lambda>(e, sid, d, p, s). 8 - rank p)"
    by auto
qed

declare finish.simps [simp del]

text \<open>
  The server with its handlers in flight. A submission arrives and its handler runs the
  shape checks up to its first \<^verbatim>\<open>await\<close>; a handler in flight is resumed, under the
  environment of that step; a replay request is handled, which has one \<^verbatim>\<open>await\<close> and
  emits in a loop without one. A finished handler keeps its place with its outcome.
\<close>

type_synonym task = "string \<times> FollowUpPayload \<times> (pc + outcome)"

record system =
  srv :: server
  tasks :: "task list"

datatype move =
    Arrive string FollowUpPayload
  | Resume nat env
  | ReplayRequest env string "stream_id option"

fun move_step :: "system \<Rightarrow> move \<Rightarrow> system \<times> effect list" where
  "move_step \<sigma> (Arrive sid d) =
     (\<sigma>\<lparr>tasks := tasks \<sigma> @
         [(sid, d, case validate d of Some r \<Rightarrow> Inr r | None \<Rightarrow> Inl AwaitIncr)]\<rparr>, [])"
| "move_step \<sigma> (Resume i e) =
     (if i < length (tasks \<sigma>)
      then case tasks \<sigma> ! i of
             (sid, d, Inl p) \<Rightarrow>
               (let r = advance e sid d p (srv \<sigma>)
                in (\<sigma>\<lparr>srv := fst r, tasks := (tasks \<sigma>)[i := (sid, d, snd (snd r))]\<rparr>,
                    fst (snd r)))
           | (sid, d, Inr out) \<Rightarrow> (\<sigma>, [])
      else (\<sigma>, []))"
| "move_step \<sigma> (ReplayRequest e sid l) = (\<sigma>, request_replay e sid l (srv \<sigma>))"

fun run :: "system \<Rightarrow> move list \<Rightarrow> system \<times> effect list" where
  "run \<sigma> [] = (\<sigma>, [])"
| "run \<sigma> (m # ms) =
     (let r1 = move_step \<sigma> m; r2 = run (fst r1) ms in (fst r2, snd r1 @ snd r2))"

text \<open>
  A participant connects on the socket \<open>sid\<close> and sends its replay request. The server
  makes the moves \<open>pre\<close> before it handles that request and the moves \<open>post\<close> after;
  the participant receives, in the order the server emits it, everything that reaches
  its socket from the connect on.
\<close>

definition session :: "string \<Rightarrow> participant \<Rightarrow> system \<Rightarrow> move list \<Rightarrow> env \<Rightarrow> move list \<Rightarrow> participant" where
  "session sid p \<sigma> pre e post =
     (let (p1, l) = on_connect p
      in receive sid (snd (run \<sigma> (pre @ [ReplayRequest e sid l] @ post))) p1)"

text \<open>The clock of a move, where it has one.\<close>

fun move_now :: "move \<Rightarrow> nat option" where
  "move_now (Arrive sid d) = None"
| "move_now (Resume i e) = Some (now e)"
| "move_now (ReplayRequest e sid l) = Some (now e)"

text \<open>A move whose clock, if it has one, does not read less than \<open>t\<close>.\<close>

definition not_before :: "nat \<Rightarrow> move \<Rightarrow> bool" where
  "not_before t m = (case move_now m of None \<Rightarrow> True | Some t' \<Rightarrow> t \<le> t')"

section \<open>Concrete inputs\<close>

definition envA :: env where
  "envA = \<lparr>now = 1000, openai = Content (Some ''Q1''), redis_fail = None\<rparr>"

definition envB :: env where
  "envB = \<lparr>now = 1000, openai = Content (Some ''Q2''), redis_fail = None\<rparr>"

definition payloadA :: FollowUpPayload where
  "payloadA = \<lparr>items = [''latency''], createdAt = 990\<rparr>"

definition payloadB :: FollowUpPayload where
  "payloadB = \<lparr>items = [''retry logic''], createdAt = 995\<rparr>"

text \<open>Nine items of 34 characters each: 306 characters in all.\<close>

definition payload9 :: FollowUpPayload where
  "payload9 = \<lparr>items = replicate 9 (replicate 34 (CHR ''a'')), createdAt = 990\<rparr>"

definition envFail :: env where
  "envFail = \<lparr>now = 1000, openai = Content (Some ''Q1''), redis_fail = Some 5\<rparr>"

definition envDown :: env where
  "envDown = \<lparr>now = 1000, openai = ApiError, redis_fail = None\<rparr>"

text \<open>A questions log of 101 entries, and a server that holds it.\<close>

definition log101 :: "question_fields stream" where
  "log101 = appended (replicate 101 (1000, \<lparr>q_text = ''q'', q_createdAt = 1000\<rparr>))"

definition server101 :: server where
  "server101 = server0\<lparr>questions := log101\<rparr>"

text \<open>A questions log of three entries.\<close>

definition log3 :: "(nat \<times> question_fields) list" where
  "log3 = [(1000, \<lparr>q_text = ''q1'', q_createdAt = 1000\<rparr>),
           (1000, \<lparr>q_text = ''q2'', q_createdAt = 1000\<rparr>),
           (2000, \<lparr>q_text = ''q3'', q_createdAt = 2000\<rparr>)]"

text \<open>A participant that has seen the first entry of the three-entry log.\<close>

definition participant1 :: participant where
  "participant1 = participant0\<lparr>lastStreamId := Some (fst (appended log3 ! 0))\<rparr>"

text \<open>
  Ten submissions on the socket \<open>r\<close> and then one, with other items, on the socket
  \<open>a\<close>, all at the same time.
\<close>

definition busy :: "request list" where
  "busy = replicate 10 (FollowUp envA ''r'' payloadB) @ [FollowUp envA ''a'' payloadA]"

definition envLater :: env where
  "envLater = \<lparr>now = 400000, openai = Content (Some ''Q3''), redis_fail = None\<rparr>"

text \<open>
  A system that holds the three-entry log, one that holds the 101-entry log, and the
  moves of one submission on the socket \<open>r\<close> from its arrival to its end.
\<close>

definition sys3 :: system where
  "sys3 = \<lparr>srv = server0\<lparr>questions := appended log3\<rparr>, tasks = []\<rparr>"

definition sys101 :: system where
  "sys101 = \<lparr>srv = server101, tasks = []\<rparr>"

definition submission :: "move list" where
  "submission = Arrive ''r'' payloadA # replicate 8 (Resume 0 envB)"

text \<open>
  An environment with the store and the backend working at the time \<open>t\<close>, and \<open>n\<close>
  submissions on the socket \<open>r\<close>, five seconds apart from the time 0.
\<close>

definition at_time :: "nat \<Rightarrow> env" where
  "at_time t = \<lparr>now = t, openai = Content (Some ''Q''), redis_fail = None\<rparr>"

definition spaced :: "nat \<Rightarrow> request list" where
  "spaced n = map (\<lambda>i. FollowUp (at_time (5000 * i)) ''r'' payloadB) [0..<n]"

text \<open>
  Two submissions of the same items on two sockets whose handlers overlap: both arrive
  and both pass the rate limit (\<open>arrived\<close>); then both read the mark before either
  sets it, and both run on to their end (\<open>overlapping\<close>).
\<close>

definition sys0 :: system where
  "sys0 = \<lparr>srv = server0, tasks = []\<rparr>"

definition arrived :: "move list" where
  "arrived =
     [Arrive ''r'' payloadA, Arrive ''a'' payloadA,
      Resume 0 envA, Resume 0 envA, Resume 1 envB, Resume 1 envB]"

definition overlapping :: "move list" where
  "overlapping =
     arrived @ [Resume 0 envA, Resume 1 envB] @
     replicate 5 (Resume 0 envA) @ replicate 5 (Resume 1 envB)"

text \<open>
  A server on which the mark of the items of \<open>payloadA\<close> was set at the time 1000, and
  the moves of a submission of other items from its arrival to its end.
\<close>

definition marked :: system where
  "marked = \<lparr>srv = fst (advance envA ''r'' payloadA AwaitSet server0), tasks = []\<rparr>"

definition other_submission :: "move list" where
  "other_submission = Arrive ''a'' payloadB # replicate 8 (Resume 0 envB)"

section \<open>Properties\<close>

lemmas handler_defs =
  state_of_def trace_of_def outcome_of_def followup_create_def validate_def rate_limit_def
  dedupe_def generate_def catch_def apology_def aiText_def request_replay_def replay_event_def
  incr_def expire_def set_ex_def kv_get_def live_def xAdd_def xRead_def last_id_def
  next_id_def serve_all_def server0_def count_of_def Let_def case_prod_beta

subsection \<open>Stream ids\<close>

lemma id_lt_trans: "id_lt a b \<Longrightarrow> id_lt b c \<Longrightarrow> id_lt a c"
  by (cases a; cases b; cases c) auto

lemma id_lt_irrefl: "\<not> id_lt a a"
  by (cases a) auto

lemma id_lt_next: "id_lt l (next_id l t)"
  by (cases l) (auto simp: next_id_def)

lemma last_id_snoc: "last_id (ys @ [y]) = fst y"
  by (cases ys) (simp_all add: last_id_def)

lemma below_last:
  assumes "sorted_wrt id_lt (map fst s)" and "x \<in> set s"
  shows "fst x = last_id s \<or> id_lt (fst x) (last_id s)"
proof (cases s rule: rev_cases)
  case Nil
  with assms show ?thesis by simp
next
  case (snoc ys y)
  with assms show ?thesis
    by (auto simp: last_id_snoc sorted_wrt_append)
qed

lemma xAdd_sorted:
  assumes "sorted_wrt id_lt (map fst s)"
  shows "sorted_wrt id_lt (map fst (fst (xAdd t s f)))"
proof -
  have "id_lt (fst x) (next_id (last_id s) t)" if "x \<in> set s" for x
    using below_last[OF assms that] id_lt_next[of "last_id s" t]
    by (auto intro: id_lt_trans)
  with assms show ?thesis
    by (simp add: xAdd_def Let_def sorted_wrt_append)
qed

subsection \<open>The stages of \<^verbatim>\<open>followup:create\<close>\<close>

lemma rate_limit_streams:
  "questions (fst (rate_limit e sid s)) = questions s"
  "followups (fst (rate_limit e sid s)) = followups s"
  "published (fst (rate_limit e sid s)) = published s"
  by (simp_all add: rate_limit_def Let_def split: prod.splits)

lemma dedupe_streams:
  "questions (fst (dedupe e d s)) = questions s"
  "followups (fst (dedupe e d s)) = followups s"
  "published (fst (dedupe e d s)) = published s"
  by (simp_all add: dedupe_def split: option.splits)

lemma generate_questions:
  "questions (fst (generate e sid d s)) =
     (case openai e of
        Content c \<Rightarrow>
          if redis_fail e = Some 4 \<or> redis_fail e = Some 5 then questions s
          else fst (xAdd (now e) (questions s) \<lparr>q_text = aiText c, q_createdAt = now e\<rparr>)
      | ApiError \<Rightarrow> questions s)"
  by (simp add: generate_def Let_def split: prod.splits completion.splits)

lemma generate_Broadcast:
  "snd (snd (generate e sid d s)) = Broadcast \<longleftrightarrow>
     (\<exists>c. openai e = Content c) \<and> redis_fail e \<notin> {Some 4, Some 5, Some 6}"
  by (simp add: generate_def Let_def split: prod.splits completion.splits)

lemma followup_create_cases:
  obtains
    (shape) r where "validate d = Some r" "followup_create e sid d s = (s, [], r)"
  | (rate) s1 t1 r where "validate d = None" "rate_limit e sid s = (s1, t1, Some r)"
      "followup_create e sid d s = (s1, t1 @ catch e sid r, r)"
  | (dedup) s1 t1 s2 t2 r where "validate d = None" "rate_limit e sid s = (s1, t1, None)"
      "dedupe e d s1 = (s2, t2, Some r)"
      "followup_create e sid d s = (s2, t1 @ t2 @ catch e sid r, r)"
  | (gen) s1 t1 s2 t2 s3 t3 r where "validate d = None" "rate_limit e sid s = (s1, t1, None)"
      "dedupe e d s1 = (s2, t2, None)" "generate e sid d s2 = (s3, t3, r)"
      "followup_create e sid d s = (s3, t1 @ t2 @ t3 @ catch e sid r, r)"
proof (cases "validate d")
  case (Some r)
  then show ?thesis using shape by (simp add: followup_create_def)
next
  case None
  obtain s1 t1 r1 where rl: "rate_limit e sid s = (s1, t1, r1)"
    by (cases "rate_limit e sid s")
  show ?thesis
  proof (cases r1)
    case (Some r)
    with None rl show ?thesis using rate by (simp add: followup_create_def)
  next
    case r1: None
    obtain s2 t2 r2 where dd: "dedupe e d s1 = (s2, t2, r2)"
      by (cases "dedupe e d s1")
    show ?thesis
    proof (cases r2)
      case (Some r)
      with None rl r1 dd show ?thesis using dedup by (simp add: followup_create_def)
    next
      case r2: None
      obtain s3 t3 r where gg: "generate e sid d s2 = (s3, t3, r)"
        by (cases "generate e sid d s2")
      with None rl r1 dd r2 show ?thesis using gen by (simp add: followup_create_def)
    qed
  qed
qed

lemma followup_create_questions:
  "questions (state_of (followup_create e sid d s)) = questions s \<or>
   (\<exists>c. openai e = Content c \<and>
      questions (state_of (followup_create e sid d s)) =
        fst (xAdd (now e) (questions s) \<lparr>q_text = aiText c, q_createdAt = now e\<rparr>))"
proof (cases rule: followup_create_cases[of d e sid s])
  case (shape r)
  then show ?thesis by (simp add: state_of_def)
next
  case (rate s1 t1 r)
  then show ?thesis using rate_limit_streams(1)[of e sid s] by (simp add: state_of_def)
next
  case (dedup s1 t1 s2 t2 r)
  then show ?thesis using rate_limit_streams(1)[of e sid s] dedupe_streams(1)[of e d s1]
    by (simp add: state_of_def)
next
  case (gen s1 t1 s2 t2 s3 t3 r)
  then show ?thesis using rate_limit_streams(1)[of e sid s] dedupe_streams(1)[of e d s1]
      generate_questions[of e sid d s2]
    by (auto simp: state_of_def split: completion.splits if_splits)
qed

lemma followup_create_Broadcast:
  assumes "outcome_of (followup_create e sid d s) = Broadcast"
  shows "\<exists>c. openai e = Content c \<and>
      questions (state_of (followup_create e sid d s)) =
        fst (xAdd (now e) (questions s) \<lparr>q_text = aiText c, q_createdAt = now e\<rparr>)"
proof (cases rule: followup_create_cases[of d e sid s])
  case (shape r)
  with assms show ?thesis by (auto simp: outcome_of_def validate_def split: if_splits)
next
  case (rate s1 t1 r)
  with assms show ?thesis
    by (auto simp: outcome_of_def rate_limit_def Let_def split: if_splits prod.splits)
next
  case (dedup s1 t1 s2 t2 r)
  with assms show ?thesis
    by (auto simp: outcome_of_def dedupe_def split: if_splits option.splits)
next
  case (gen s1 t1 s2 t2 s3 t3 r)
  then show ?thesis using assms rate_limit_streams(1)[of e sid s] dedupe_streams(1)[of e d s1]
      generate_questions[of e sid d s2] generate_Broadcast[of e sid d s2]
    by (auto simp: state_of_def outcome_of_def split: completion.splits if_splits)
qed

subsection \<open>The questions log along a run\<close>

lemma serve_questions:
  "\<exists>new. questions (serve s r) = questions s @ new"
proof (cases r)
  case (FollowUp e sid d)
  then show ?thesis using followup_create_questions[of e sid d s]
    by (auto simp: xAdd_def Let_def)
next
  case (Replay e sid l)
  then show ?thesis by simp
qed

lemma serve_all_questions:
  "\<exists>new. questions (serve_all s rs) = questions s @ new"
proof (induction rs arbitrary: s)
  case Nil
  then show ?case by (simp add: serve_all_def)
next
  case (Cons r rs)
  obtain n1 where n1: "questions (serve s r) = questions s @ n1"
    using serve_questions by blast
  obtain n2 where n2: "questions (serve_all (serve s r) rs) = questions (serve s r) @ n2"
    using Cons.IH by blast
  from n1 n2 show ?case by (simp add: serve_all_def)
qed

lemma serve_sorted:
  assumes "sorted_wrt id_lt (map fst (questions s))"
  shows "sorted_wrt id_lt (map fst (questions (serve s r)))"
proof (cases r)
  case (FollowUp e sid d)
  then show ?thesis
    using followup_create_questions[of e sid d s] assms xAdd_sorted[OF assms]
    by auto
next
  case (Replay e sid l)
  with assms show ?thesis by simp
qed

lemma serve_all_sorted:
  "sorted_wrt id_lt (map fst (questions s)) \<Longrightarrow>
   sorted_wrt id_lt (map fst (questions (serve_all s rs)))"
  unfolding serve_all_def
  by (induction rs arbitrary: s) (simp_all add: serve_sorted)

lemma reachable_sorted:
  "sorted_wrt id_lt (map fst (questions (serve_all server0 rs)))"
  by (rule serve_all_sorted) (simp add: server0_def)

text \<open>
  C3. Along every run of the server from the empty store, the ids of
  \<^verbatim>\<open>questions:stream\<close> increase strictly in append order. When a submission A is broadcast
  and, after any further requests, a submission B is broadcast, the log holds A's entry
  and, later, B's entry, the id of A's entry is strictly less than the id of B's, and
  everything that was in the log before is still there, unchanged and in place.
\<close>

theorem log_ids_strictly_increasing:
  fixes rs0 rs :: "request list" and eA eB :: env and sidA sidB :: string
    and dA dB :: FollowUpPayload
  defines "s \<equiv> serve_all server0 rs0"
  defines "sA \<equiv> state_of (followup_create eA sidA dA s)"
  defines "s' \<equiv> serve_all sA rs"
  defines "sB \<equiv> state_of (followup_create eB sidB dB s')"
  assumes A: "outcome_of (followup_create eA sidA dA s) = Broadcast"
      and B: "outcome_of (followup_create eB sidB dB s') = Broadcast"
  shows "\<exists>ia fa mid ib fb.
           questions sA = questions s @ [(ia, fa)] \<and>
           questions sB = questions s @ [(ia, fa)] @ mid @ [(ib, fb)] \<and>
           id_lt ia ib \<and>
           sorted_wrt id_lt (map fst (questions sB))"
proof -
  have "\<exists>ia fa. questions sA = questions s @ [(ia, fa)]"
    using followup_create_Broadcast[OF A] by (auto simp: sA_def xAdd_def Let_def)
  then obtain ia fa where a: "questions sA = questions s @ [(ia, fa)]"
    by blast
  obtain mid where m: "questions s' = questions sA @ mid"
    using serve_all_questions[of sA rs] by (auto simp: s'_def)
  have "\<exists>ib fb. questions sB = questions s' @ [(ib, fb)]"
    using followup_create_Broadcast[OF B] by (auto simp: sB_def xAdd_def Let_def)
  then obtain ib fb where b: "questions sB = questions s' @ [(ib, fb)]"
    by blast
  have "sB = serve_all server0 (rs0 @ FollowUp eA sidA dA # rs @ [FollowUp eB sidB dB])"
    by (simp add: serve_all_def sB_def s'_def sA_def s_def)
  then have srt: "sorted_wrt id_lt (map fst (questions sB))"
    using reachable_sorted by simp
  have all: "questions sB = questions s @ [(ia, fa)] @ mid @ [(ib, fb)]"
    using a m b by simp
  from srt have "id_lt ia ib"
    unfolding all by (simp add: sorted_wrt_append)
  with a all srt show ?thesis by blast
qed

theorem log_ids_strictly_increasing_witness:
  "outcome_of (followup_create envA ''r'' payloadA (serve_all server0 [])) = Broadcast \<and>
   outcome_of (followup_create envB ''r'' payloadB
      (serve_all (state_of (followup_create envA ''r'' payloadA (serve_all server0 []))) []))
     = Broadcast \<and>
   (\<exists>ia fa mid ib fb.
      questions (state_of (followup_create envA ''r'' payloadA (serve_all server0 []))) =
        questions (serve_all server0 []) @ [(ia, fa)] \<and>
      questions (state_of (followup_create envB ''r'' payloadB
        (serve_all (state_of (followup_create envA ''r'' payloadA (serve_all server0 []))) []))) =
        questions (serve_all server0 []) @ [(ia, fa)] @ mid @ [(ib, fb)] \<and>
      id_lt ia ib \<and>
      sorted_wrt id_lt (map fst (questions (state_of (followup_create envB ''r'' payloadB
        (serve_all (state_of (followup_create envA ''r'' payloadA (serve_all server0 []))) []))))))"
proof -
  have A: "outcome_of (followup_create envA ''r'' payloadA (serve_all server0 [])) = Broadcast"
    by (simp add: handler_defs envA_def payloadA_def)
  have B: "outcome_of (followup_create envB ''r'' payloadB
      (serve_all (state_of (followup_create envA ''r'' payloadA (serve_all server0 []))) []))
     = Broadcast"
    by (simp add: handler_defs envA_def payloadA_def envB_def payloadB_def)
  from log_ids_strictly_increasing[OF A B] A B show ?thesis by blast
qed

subsection \<open>The playback queue\<close>

lemma no_overlap_append:
  "no_overlap cur (r @ r') = (no_overlap cur r \<and> no_overlap (rendering cur r) r')"
  by (induction cur r rule: no_overlap.induct) auto

lemma rendering_append:
  "rendering cur (r @ r') = rendering (rendering cur r) r'"
  by (induction cur r rule: rendering.induct) auto

lemma begun_append:
  "begun (r @ r') = begun r @ begun r'"
  by (induction r rule: begun.induct) auto

lemma enqueued_append:
  "enqueued (evs @ evs') = enqueued evs @ enqueued evs'"
  by (induction evs rule: enqueued.induct) auto

lemma processQueue_inv:
  "no_overlap None (rendered p) \<Longrightarrow>
   utterances p = (case rendering None (rendered p) of None \<Rightarrow> [] | Some t \<Rightarrow> [t]) \<Longrightarrow>
   isSpeaking p = (utterances p \<noteq> []) \<Longrightarrow>
   playback_inv (processQueue p)"
  by (auto simp: playback_inv_def processQueue_def no_overlap_append rendering_append
      split: list.splits option.splits)

lemma playback_step_inv: "playback_inv p \<Longrightarrow> playback_inv (playback_step p ev)"
  by (cases ev)
    (auto simp: speak_def onend_def onerror_def playback_inv_def[of p] no_overlap_append
      rendering_append intro!: processQueue_inv split: list.splits option.splits)

lemma playback_step_fifo:
  "begun (rendered (playback_step p ev)) @ speakQueue (playback_step p ev) =
   begun (rendered p) @ speakQueue p @ enqueued [ev]"
  by (cases ev)
    (auto simp: speak_def onend_def onerror_def processQueue_def begun_append
      split: list.splits option.splits)

lemma playback_run_snoc:
  "playback_run (evs @ [ev]) = playback_step (playback_run evs) ev"
  by (simp add: playback_run_def)

lemma playback_run_inv: "playback_inv (playback_run evs)"
proof (induction evs rule: rev_induct)
  case Nil
  show ?case by (simp add: playback_run_def playback_inv_def participant0_def)
next
  case (snoc ev evs)
  then show ?case by (simp add: playback_run_snoc playback_step_inv)
qed

lemma playback_run_fifo:
  "begun (rendered (playback_run evs)) @ speakQueue (playback_run evs) = enqueued evs"
proof (induction evs rule: rev_induct)
  case Nil
  show ?case by (simp add: playback_run_def participant0_def)
next
  case (snoc ev evs)
  have "begun (rendered (playback_run (evs @ [ev]))) @ speakQueue (playback_run (evs @ [ev])) =
        (begun (rendered (playback_run evs)) @ speakQueue (playback_run evs)) @ enqueued [ev]"
    by (simp add: playback_run_snoc playback_step_fifo)
  with snoc show ?case by (simp add: enqueued_append)
qed

text \<open>
  C4. After every sequence of enqueue and render-completion events, starting from the
  initial state of the participant: at most one utterance is in flight; the record of
  renderings never begins an item while another is rendering; the items that began
  rendering, followed by those still queued, are the enqueued items in enqueue order;
  and \<open>speak\<close> returns at once with the item rendering or queued. Two items enqueued
  one right after the other: the second begins only after the first has finished.
\<close>

theorem playback_one_at_a_time_fifo:
  "length (utterances (playback_run evs)) \<le> 1 \<and>
   no_overlap None (rendered (playback_run evs)) \<and>
   begun (rendered (playback_run evs)) @ speakQueue (playback_run evs) = enqueued evs \<and>
   rendered (playback_run (evs @ [Enqueue a])) =
     rendered (playback_run evs) @ (if isSpeaking (playback_run evs) then [] else [Begin a]) \<and>
   rendered (playback_run [Enqueue a, Enqueue b]) = [Begin a] \<and>
   rendered (playback_run [Enqueue a, Enqueue b, RenderEnd]) = [Begin a, Finish a, Begin b]"
proof -
  have inv: "playback_inv (playback_run evs)"
    by (rule playback_run_inv)
  have one: "length (utterances (playback_run evs)) \<le> 1"
    using inv by (simp add: playback_inv_def split: option.splits)
  have ov: "no_overlap None (rendered (playback_run evs))"
    using inv by (simp add: playback_inv_def)
  have enq: "rendered (playback_run (evs @ [Enqueue a])) =
     rendered (playback_run evs) @ (if isSpeaking (playback_run evs) then [] else [Begin a])"
    using inv
    by (auto simp: playback_run_snoc speak_def processQueue_def playback_inv_def)
  have two: "rendered (playback_run [Enqueue a, Enqueue b]) = [Begin a]"
    by (simp add: playback_run_def speak_def processQueue_def participant0_def)
  have three: "rendered (playback_run [Enqueue a, Enqueue b, RenderEnd]) =
      [Begin a, Finish a, Begin b]"
    by (simp add: playback_run_def speak_def processQueue_def participant0_def onend_def)
  from one ov playback_run_fifo[of evs] enq two three show ?thesis by blast
qed

subsection \<open>Shape validation\<close>

lemma validate_shape_unchanged:
  "validate d = Some r \<Longrightarrow> followup_create e sid d s = (s, [], r)"
  by (simp add: followup_create_def)

lemma outcome_shape:
  "outcome_of (followup_create e sid d s) \<in> {EmptyInput, TooManyItems, TooManyCharacters}
   \<longleftrightarrow> validate d \<noteq> None"
proof (cases rule: followup_create_cases[of d e sid s])
  case (shape r)
  then show ?thesis by (auto simp: outcome_of_def validate_def split: if_splits)
next
  case (rate s1 t1 r)
  then show ?thesis
    by (auto simp: outcome_of_def rate_limit_def Let_def split: if_splits prod.splits)
next
  case (dedup s1 t1 s2 t2 r)
  then show ?thesis
    by (auto simp: outcome_of_def dedupe_def split: if_splits option.splits)
next
  case (gen s1 t1 s2 t2 s3 t3 r)
  then show ?thesis
    by (auto simp: outcome_of_def generate_def Let_def
        split: if_splits prod.splits completion.splits)
qed

lemma outcome_validate:
  "validate d = Some r \<Longrightarrow> outcome_of (followup_create e sid d s) = r"
  by (simp add: validate_shape_unchanged outcome_of_def)

text \<open>
  C8, as stated, fails: a submission of nine items with 306 characters in all has a
  concatenated length above 300 and is rejected with \<open>TooManyItems\<close>, not with
  \<open>TooManyCharacters\<close>.
\<close>

theorem too_many_characters_counterexample:
  "300 < length (concat (items payload9)) \<and>
   outcome_of (followup_create envA ''r'' payload9 server0) \<noteq> TooManyCharacters"
proof -
  have "length (concat (items payload9)) = 306"
    by (simp add: payload9_def length_concat sum_list_replicate)
  moreover have "validate payload9 = Some TooManyItems"
    by (simp add: validate_def payload9_def)
  ultimately show ?thesis
    by (simp add: outcome_validate)
qed

text \<open>
  C8, amended. The shape checks run first and in the order written, and the first one
  that fails gives the reason: \<open>EmptyInput\<close> exactly when the item count is 0,
  \<open>TooManyItems\<close> exactly when it exceeds 8, \<open>TooManyCharacters\<close> exactly when the
  count is between 1 and 8 and the concatenated length exceeds 300. A submission rejected
  by a shape check leaves the whole state as it was and does nothing else: no Redis
  command, no backend call, no event.
\<close>

theorem shape_validation:
  "(outcome_of (followup_create e sid d s) = EmptyInput \<longleftrightarrow> length (items d) = 0) \<and>
   (outcome_of (followup_create e sid d s) = TooManyItems \<longleftrightarrow> 8 < length (items d)) \<and>
   (outcome_of (followup_create e sid d s) = TooManyCharacters \<longleftrightarrow>
      0 < length (items d) \<and> length (items d) \<le> 8 \<and> 300 < length (concat (items d))) \<and>
   (outcome_of (followup_create e sid d s) \<in> {EmptyInput, TooManyItems, TooManyCharacters}
      \<longrightarrow> state_of (followup_create e sid d s) = s \<and> trace_of (followup_create e sid d s) = [])"
proof (cases "validate d")
  case None
  then have "outcome_of (followup_create e sid d s) \<notin> {EmptyInput, TooManyItems, TooManyCharacters}"
    using outcome_shape[of e sid d s] by simp
  moreover from None have "length (items d) \<noteq> 0 \<and> \<not> 8 < length (items d) \<and>
      \<not> 300 < length (concat (items d))"
    by (simp add: validate_def split: if_splits)
  ultimately show ?thesis by auto
next
  case (Some r)
  then have "followup_create e sid d s = (s, [], r)"
    by (rule validate_shape_unchanged)
  with Some show ?thesis
    by (auto simp: outcome_of_def state_of_def trace_of_def validate_def split: if_splits)
qed

theorem shape_validation_witness:
  "outcome_of (followup_create envA ''r'' payload9 server0)
     \<in> {EmptyInput, TooManyItems, TooManyCharacters} \<and>
   state_of (followup_create envA ''r'' payload9 server0) = server0 \<and>
   trace_of (followup_create envA ''r'' payload9 server0) = [] \<and>
   outcome_of (followup_create envA ''r'' payload9 server0) = TooManyItems"
proof -
  have v: "validate payload9 = Some TooManyItems"
    by (simp add: validate_def payload9_def)
  have o: "outcome_of (followup_create envA ''r'' payload9 server0) = TooManyItems"
    using v by (simp add: outcome_validate)
  with shape_validation[of envA "''r''" payload9 server0] show ?thesis by simp
qed

subsection \<open>What a run of \<^verbatim>\<open>followup:create\<close> issues and emits\<close>

lemma rate_limit_trace:
  "rate_limit e sid s = (s1, t1, r) \<Longrightarrow>
   (t1 = [Redis INCR] \<and> r = Some Caught) \<or>
   (t1 = [Redis INCR, Redis EXPIRE] \<and> r \<in> {Some Caught, Some RateLimited, None})"
  by (auto simp: rate_limit_def Let_def split: if_splits prod.splits)

lemma dedupe_trace:
  "dedupe e d s = (s2, t2, r) \<Longrightarrow>
   (t2 = [Redis GET] \<and> r \<in> {Some Caught, Some Duplicate}) \<or>
   (t2 = [Redis GET, Redis SET] \<and> r \<in> {Some Caught, None})"
  by (auto simp: dedupe_def split: if_splits option.splits)

lemma generate_trace:
  "generate e sid d s = (s3, t3, r) \<Longrightarrow>
   (r = Caught \<and> t3 \<in> {[Redis XADD_followups], [Redis XADD_followups, OpenAI],
       [Redis XADD_followups, OpenAI, Redis XADD_questions],
       [Redis XADD_followups, OpenAI, Redis XADD_questions, Redis PUBLISH]}) \<or>
   (r = Broadcast \<and>
    t3 = [Redis XADD_followups, OpenAI, Redis XADD_questions, Redis PUBLISH,
          ToAll (live_event e s)])"
  by (auto simp: generate_def live_event_def xAdd_def Let_def
      split: if_splits prod.splits completion.splits)

lemma followup_create_distinct: "distinct (trace_of (followup_create e sid d s))"
proof (cases rule: followup_create_cases[of d e sid s])
  case (shape r)
  then show ?thesis by (simp add: trace_of_def)
next
  case (rate s1 t1 r)
  then show ?thesis using rate_limit_trace[of e sid s s1 t1 "Some r"]
    by (auto simp: trace_of_def catch_def)
next
  case (dedup s1 t1 s2 t2 r)
  then show ?thesis
    using rate_limit_trace[of e sid s s1 t1 None] dedupe_trace[of e d s1 s2 t2 "Some r"]
    by (auto simp: trace_of_def catch_def)
next
  case (gen s1 t1 s2 t2 s3 t3 r)
  then show ?thesis
    using rate_limit_trace[of e sid s s1 t1 None] dedupe_trace[of e d s1 s2 t2 None]
      generate_trace[of e sid d s2 s3 t3 r]
    by (auto simp: trace_of_def catch_def)
qed

lemma followup_create_events:
  "events (trace_of (followup_create e sid d s)) =
     (if outcome_of (followup_create e sid d s) = Caught then [apology e]
      else if outcome_of (followup_create e sid d s) = Broadcast then [live_event e s]
      else [])"
proof (cases rule: followup_create_cases[of d e sid s])
  case (shape r)
  then show ?thesis by (auto simp: trace_of_def outcome_of_def validate_def split: if_splits)
next
  case (rate s1 t1 r)
  then show ?thesis using rate_limit_trace[of e sid s s1 t1 "Some r"]
    by (auto simp: trace_of_def outcome_of_def catch_def)
next
  case (dedup s1 t1 s2 t2 r)
  then show ?thesis
    using rate_limit_trace[of e sid s s1 t1 None] dedupe_trace[of e d s1 s2 t2 "Some r"]
    by (auto simp: trace_of_def outcome_of_def catch_def)
next
  case (gen s1 t1 s2 t2 s3 t3 r)
  have "questions s2 = questions s"
    using gen rate_limit_streams(1)[of e sid s] dedupe_streams(1)[of e d s1] by simp
  then have "live_event e s2 = live_event e s"
    by (simp add: live_event_def)
  then show ?thesis
    using gen rate_limit_trace[of e sid s s1 t1 None] dedupe_trace[of e d s1 s2 t2 None]
      generate_trace[of e sid d s2 s3 t3 r]
    by (auto simp: trace_of_def outcome_of_def catch_def)
qed

lemma followup_create_delivered_requester:
  "delivered sid (trace_of (followup_create e sid d s)) =
   events (trace_of (followup_create e sid d s))"
proof (cases rule: followup_create_cases[of d e sid s])
  case (shape r)
  then show ?thesis by (simp add: trace_of_def)
next
  case (rate s1 t1 r)
  then show ?thesis using rate_limit_trace[of e sid s s1 t1 "Some r"]
    by (auto simp: trace_of_def catch_def)
next
  case (dedup s1 t1 s2 t2 r)
  then show ?thesis
    using rate_limit_trace[of e sid s s1 t1 None] dedupe_trace[of e d s1 s2 t2 "Some r"]
    by (auto simp: trace_of_def catch_def)
next
  case (gen s1 t1 s2 t2 s3 t3 r)
  then show ?thesis
    using rate_limit_trace[of e sid s s1 t1 None] dedupe_trace[of e d s1 s2 t2 None]
      generate_trace[of e sid d s2 s3 t3 r]
    by (auto simp: trace_of_def catch_def)
qed

lemma followup_create_Broadcast_entry:
  assumes "outcome_of (followup_create e sid d s) = Broadcast"
  shows "questions (state_of (followup_create e sid d s)) =
     questions s @ [(next_id (last_id (questions s)) (now e),
                     \<lparr>q_text = aq_text (live_event e s), q_createdAt = now e\<rparr>)]"
  using followup_create_Broadcast[OF assms]
  by (auto simp: xAdd_def Let_def live_event_def)

lemma followup_create_published:
  "published (state_of (followup_create e sid d s)) =
     published s @ (if outcome_of (followup_create e sid d s) = Broadcast
                    then [live_event e s] else [])"
proof (cases rule: followup_create_cases[of d e sid s])
  case (shape r)
  then show ?thesis
    by (auto simp: state_of_def outcome_of_def validate_def split: if_splits)
next
  case (rate s1 t1 r)
  then show ?thesis using rate_limit_streams(3)[of e sid s] rate_limit_trace[of e sid s s1 t1 "Some r"]
    by (auto simp: state_of_def outcome_of_def)
next
  case (dedup s1 t1 s2 t2 r)
  then show ?thesis
    using rate_limit_streams(3)[of e sid s] dedupe_streams(3)[of e d s1]
      dedupe_trace[of e d s1 s2 t2 "Some r"]
    by (auto simp: state_of_def outcome_of_def)
next
  case (gen s1 t1 s2 t2 s3 t3 r)
  have "questions s2 = questions s" "published s2 = published s"
    using gen rate_limit_streams[of e sid s] dedupe_streams[of e d s1] by simp_all
  then show ?thesis
    using gen
    by (auto simp: state_of_def outcome_of_def generate_def live_event_def xAdd_def Let_def
        split: if_splits prod.splits completion.splits)
qed

lemma transform_failure:
  assumes "openai e = ApiError"
  shows "questions (state_of (followup_create e sid d s)) = questions s"
    and "OpenAI \<in> set (trace_of (followup_create e sid d s)) \<Longrightarrow>
         outcome_of (followup_create e sid d s) = Caught"
    and "Redis XADD_questions \<notin> set (trace_of (followup_create e sid d s))"
    and "Redis PUBLISH \<notin> set (trace_of (followup_create e sid d s))"
proof -
  show "questions (state_of (followup_create e sid d s)) = questions s"
    using followup_create_questions[of e sid d s] assms by auto
  have *: "generate e sid d s2 = (s3, t3, r) \<Longrightarrow>
      r = Caught \<and> t3 \<in> {[Redis XADD_followups], [Redis XADD_followups, OpenAI]}"
    for s2 s3 t3 r
    using assms by (auto simp: generate_def Let_def split: if_splits prod.splits)
  show "OpenAI \<in> set (trace_of (followup_create e sid d s)) \<Longrightarrow>
         outcome_of (followup_create e sid d s) = Caught"
  proof (cases rule: followup_create_cases[of d e sid s])
    case (shape r)
    then show "OpenAI \<in> set (trace_of (followup_create e sid d s)) \<Longrightarrow> ?thesis"
      by (simp add: trace_of_def)
  next
    case (rate s1 t1 r)
    then show "OpenAI \<in> set (trace_of (followup_create e sid d s)) \<Longrightarrow> ?thesis"
      using rate_limit_trace[of e sid s s1 t1 "Some r"]
      by (auto simp: trace_of_def outcome_of_def catch_def)
  next
    case (dedup s1 t1 s2 t2 r)
    then show "OpenAI \<in> set (trace_of (followup_create e sid d s)) \<Longrightarrow> ?thesis"
      using rate_limit_trace[of e sid s s1 t1 None] dedupe_trace[of e d s1 s2 t2 "Some r"]
      by (auto simp: trace_of_def outcome_of_def catch_def)
  next
    case (gen s1 t1 s2 t2 s3 t3 r)
    then show ?thesis using *[of s2 s3 t3 r] by (simp add: outcome_of_def)
  qed
  show "Redis XADD_questions \<notin> set (trace_of (followup_create e sid d s))"
  proof (cases rule: followup_create_cases[of d e sid s])
    case (shape r)
    then show ?thesis by (simp add: trace_of_def)
  next
    case (rate s1 t1 r)
    then show ?thesis using rate_limit_trace[of e sid s s1 t1 "Some r"]
      by (auto simp: trace_of_def catch_def)
  next
    case (dedup s1 t1 s2 t2 r)
    then show ?thesis
      using rate_limit_trace[of e sid s s1 t1 None] dedupe_trace[of e d s1 s2 t2 "Some r"]
      by (auto simp: trace_of_def catch_def)
  next
    case (gen s1 t1 s2 t2 s3 t3 r)
    then show ?thesis
      using rate_limit_trace[of e sid s s1 t1 None] dedupe_trace[of e d s1 s2 t2 None]
        *[of s2 s3 t3 r]
      by (auto simp: trace_of_def catch_def)
  qed
  show "Redis PUBLISH \<notin> set (trace_of (followup_create e sid d s))"
  proof (cases rule: followup_create_cases[of d e sid s])
    case (shape r)
    then show ?thesis by (simp add: trace_of_def)
  next
    case (rate s1 t1 r)
    then show ?thesis using rate_limit_trace[of e sid s s1 t1 "Some r"]
      by (auto simp: trace_of_def catch_def)
  next
    case (dedup s1 t1 s2 t2 r)
    then show ?thesis
      using rate_limit_trace[of e sid s s1 t1 None] dedupe_trace[of e d s1 s2 t2 "Some r"]
      by (auto simp: trace_of_def catch_def)
  next
    case (gen s1 t1 s2 t2 s3 t3 r)
    then show ?thesis
      using rate_limit_trace[of e sid s s1 t1 None] dedupe_trace[of e d s1 s2 t2 None]
        *[of s2 s3 t3 r]
      by (auto simp: trace_of_def catch_def)
  qed
qed

subsection \<open>No retry\<close>

lemma outcome_after_generate:
  assumes "x \<in> {OpenAI, Redis XADD_followups, Redis XADD_questions, Redis PUBLISH}"
    and "x \<in> set (trace_of (followup_create e sid d s))"
  shows "outcome_of (followup_create e sid d s) \<in> {Caught, Broadcast}"
proof (cases rule: followup_create_cases[of d e sid s])
  case (shape r)
  with assms show ?thesis by (simp add: trace_of_def)
next
  case (rate s1 t1 r)
  with assms show ?thesis using rate_limit_trace[of e sid s s1 t1 "Some r"]
    by (auto simp: trace_of_def outcome_of_def catch_def)
next
  case (dedup s1 t1 s2 t2 r)
  with assms show ?thesis
    using rate_limit_trace[of e sid s s1 t1 None] dedupe_trace[of e d s1 s2 t2 "Some r"]
    by (auto simp: trace_of_def outcome_of_def catch_def)
next
  case (gen s1 t1 s2 t2 s3 t3 r)
  then show ?thesis using generate_trace[of e sid d s2 s3 t3 r]
    by (auto simp: outcome_of_def)
qed

lemma Broadcast_store_up:
  assumes "outcome_of (followup_create e sid d s) = Broadcast"
  shows "redis_fail e \<notin> {Some 4, Some 5, Some 6}"
proof (cases rule: followup_create_cases[of d e sid s])
  case (shape r)
  with assms show ?thesis by (auto simp: outcome_of_def validate_def split: if_splits)
next
  case (rate s1 t1 r)
  with assms show ?thesis using rate_limit_trace[of e sid s s1 t1 "Some r"]
    by (auto simp: outcome_of_def)
next
  case (dedup s1 t1 s2 t2 r)
  with assms show ?thesis using dedupe_trace[of e d s1 s2 t2 "Some r"]
    by (auto simp: outcome_of_def)
next
  case (gen s1 t1 s2 t2 s3 t3 r)
  with assms show ?thesis using generate_Broadcast[of e sid d s2]
    by (simp add: outcome_of_def)
qed

lemma append_fails_log_unchanged:
  assumes "redis_fail e = Some 5"
  shows "questions (state_of (followup_create e sid d s)) = questions s"
proof (cases rule: followup_create_cases[of d e sid s])
  case (shape r)
  then show ?thesis by (simp add: state_of_def)
next
  case (rate s1 t1 r)
  then show ?thesis using rate_limit_streams(1)[of e sid s] by (simp add: state_of_def)
next
  case (dedup s1 t1 s2 t2 r)
  then show ?thesis using rate_limit_streams(1)[of e sid s] dedupe_streams(1)[of e d s1]
    by (simp add: state_of_def)
next
  case (gen s1 t1 s2 t2 s3 t3 r)
  then show ?thesis using assms rate_limit_streams(1)[of e sid s] dedupe_streams(1)[of e d s1]
      generate_questions[of e sid d s2]
    by (auto simp: state_of_def split: completion.splits)
qed

text \<open>
  C9, as stated, fails: when the call of \<^verbatim>\<open>xAdd\<close> on \<^verbatim>\<open>questions:stream\<close> throws
  and no other command does, the handler has issued that append once, lands in its
  \<^verbatim>\<open>catch\<close> block and leaves the log as it was; it does not try the append again.
\<close>

theorem no_retry_counterexample:
  "count_list (trace_of (followup_create envFail ''r'' payloadA server0)) (Redis XADD_questions) = 1 \<and>
   outcome_of (followup_create envFail ''r'' payloadA server0) = Caught \<and>
   questions (state_of (followup_create envFail ''r'' payloadA server0)) = []"
  by (simp add: handler_defs envFail_def payloadA_def)

lemma no_retry_facts:
  "distinct (trace_of (followup_create e sid d s)) \<and>
   (redis_fail e = Some 5 \<longrightarrow>
      questions (state_of (followup_create e sid d s)) = questions s \<and>
      (Redis XADD_questions \<in> set (trace_of (followup_create e sid d s)) \<longrightarrow>
         outcome_of (followup_create e sid d s) = Caught \<and>
         events (trace_of (followup_create e sid d s)) = [apology e])) \<and>
   (outcome_of (followup_create e sid d s)
      \<in> {EmptyInput, TooManyItems, TooManyCharacters, RateLimited, Duplicate} \<longrightarrow>
      events (trace_of (followup_create e sid d s)) = [] \<and>
      OpenAI \<notin> set (trace_of (followup_create e sid d s))) \<and>
   (openai e = ApiError \<and> OpenAI \<in> set (trace_of (followup_create e sid d s)) \<longrightarrow>
      outcome_of (followup_create e sid d s) = Caught)"
proof -
  have a: "distinct (trace_of (followup_create e sid d s))"
    by (rule followup_create_distinct)
  have b: "questions (state_of (followup_create e sid d s)) = questions s"
    if "redis_fail e = Some 5"
    using that by (rule append_fails_log_unchanged)
  have c: "outcome_of (followup_create e sid d s) = Caught"
    if "redis_fail e = Some 5"
      and "Redis XADD_questions \<in> set (trace_of (followup_create e sid d s))"
    using outcome_after_generate[of "Redis XADD_questions" e sid d s]
      Broadcast_store_up[of e sid d s] that by auto
  have d: "OpenAI \<notin> set (trace_of (followup_create e sid d s))"
    if "outcome_of (followup_create e sid d s)
          \<in> {EmptyInput, TooManyItems, TooManyCharacters, RateLimited, Duplicate}"
    using outcome_after_generate[of OpenAI e sid d s] that by auto
  have f: "outcome_of (followup_create e sid d s) = Caught"
    if "openai e = ApiError" and "OpenAI \<in> set (trace_of (followup_create e sid d s))"
    using transform_failure(2)[of e sid d s] that by simp
  from a b c d f show ?thesis
    by (auto simp: followup_create_events)
qed

subsection \<open>Events and ids\<close>

lemma followup_create_delivered_other:
  assumes "sid' \<noteq> sid"
  shows "delivered sid' (trace_of (followup_create e sid d s)) =
     (if outcome_of (followup_create e sid d s) = Broadcast then [live_event e s] else [])"
proof (cases rule: followup_create_cases[of d e sid s])
  case (shape r)
  then show ?thesis by (auto simp: trace_of_def outcome_of_def validate_def split: if_splits)
next
  case (rate s1 t1 r)
  then show ?thesis using assms rate_limit_trace[of e sid s s1 t1 "Some r"]
    by (auto simp: trace_of_def outcome_of_def catch_def)
next
  case (dedup s1 t1 s2 t2 r)
  then show ?thesis
    using assms rate_limit_trace[of e sid s s1 t1 None] dedupe_trace[of e d s1 s2 t2 "Some r"]
    by (auto simp: trace_of_def outcome_of_def catch_def)
next
  case (gen s1 t1 s2 t2 s3 t3 r)
  have "questions s2 = questions s"
    using gen rate_limit_streams(1)[of e sid s] dedupe_streams(1)[of e d s1] by simp
  then have "live_event e s2 = live_event e s"
    by (simp add: live_event_def)
  then show ?thesis
    using assms gen rate_limit_trace[of e sid s s1 t1 None] dedupe_trace[of e d s1 s2 t2 None]
      generate_trace[of e sid d s2 s3 t3 r]
    by (auto simp: trace_of_def outcome_of_def catch_def)
qed

lemma events_map_ToSocket: "events (map (\<lambda>m. ToSocket sid (f m)) ms) = map f ms"
  by (induction ms) auto

lemma delivered_map_ToSocket: "delivered sid (map (\<lambda>m. ToSocket sid (f m)) ms) = map f ms"
  by (induction ms) auto

lemma request_replay_events:
  "events (request_replay e sid l s) =
     (if redis_fail e = Some 0 then []
      else map replay_event (take 100 (newer l (questions s))))"
  by (auto simp: request_replay_def xRead_def newer_def Let_def events_map_ToSocket
      split: option.splits)

lemma request_replay_delivered:
  "delivered sid (request_replay e sid l s) = events (request_replay e sid l s)"
  by (auto simp: request_replay_def xRead_def Let_def events_map_ToSocket
      delivered_map_ToSocket split: option.splits)

lemma transform_failure_facts:
  "(openai e = ApiError \<and> OpenAI \<in> set (trace_of (followup_create e sid d s)) \<longrightarrow>
      outcome_of (followup_create e sid d s) = Caught \<and>
      events (trace_of (followup_create e sid d s)) = [apology e] \<and>
      delivered sid (trace_of (followup_create e sid d s)) = [apology e] \<and>
      (\<forall>sid'. sid' \<noteq> sid \<longrightarrow> delivered sid' (trace_of (followup_create e sid d s)) = []) \<and>
      streamId (apology e) = None \<and>
      aq_text (apology e) = ''Sorry, I encountered an error generating questions.'' \<and>
      Redis XADD_questions \<notin> set (trace_of (followup_create e sid d s)) \<and>
      Redis PUBLISH \<notin> set (trace_of (followup_create e sid d s)) \<and>
      questions (state_of (followup_create e sid d s)) = questions s \<and>
      published (state_of (followup_create e sid d s)) = published s) \<and>
   (\<forall>ev \<in> set (events (trace_of (followup_create e sid d s))).
      (streamId ev \<noteq> None) =
      (\<exists>i f. questions (state_of (followup_create e sid d s)) = questions s @ [(i, f)] \<and>
             streamId ev = Some i \<and> q_text f = aq_text ev)) \<and>
   (\<forall>ev \<in> set (events (request_replay e' sid' l s)).
      \<exists>m \<in> set (questions s). streamId ev = Some (fst m) \<and> aq_text ev = q_text (snd m))"
proof -
  let ?r = "followup_create e sid d s"
  have fail: "outcome_of ?r = Caught \<and>
      events (trace_of ?r) = [apology e] \<and>
      delivered sid (trace_of ?r) = [apology e] \<and>
      (\<forall>sid'. sid' \<noteq> sid \<longrightarrow> delivered sid' (trace_of ?r) = []) \<and>
      streamId (apology e) = None \<and>
      aq_text (apology e) = ''Sorry, I encountered an error generating questions.'' \<and>
      Redis XADD_questions \<notin> set (trace_of ?r) \<and>
      Redis PUBLISH \<notin> set (trace_of ?r) \<and>
      questions (state_of ?r) = questions s \<and>
      published (state_of ?r) = published s"
    if api: "openai e = ApiError" and called: "OpenAI \<in> set (trace_of ?r)"
  proof -
    have c: "outcome_of ?r = Caught"
      using transform_failure(2)[OF api called] .
    then have ev: "events (trace_of ?r) = [apology e]"
      by (simp add: followup_create_events)
    have dl: "delivered sid (trace_of ?r) = [apology e]"
      using ev by (simp add: followup_create_delivered_requester)
    have ot: "\<forall>sid'. sid' \<noteq> sid \<longrightarrow> delivered sid' (trace_of ?r) = []"
      using c by (simp add: followup_create_delivered_other)
    have pb: "published (state_of ?r) = published s"
      using c by (simp add: followup_create_published)
    from c ev dl ot pb transform_failure(1,3,4)[OF api, of sid d s] show ?thesis
      by (simp add: apology_def)
  qed
  have ids: "(streamId ev \<noteq> None) =
      (\<exists>i f. questions (state_of ?r) = questions s @ [(i, f)] \<and>
             streamId ev = Some i \<and> q_text f = aq_text ev)"
    if "ev \<in> set (events (trace_of ?r))" for ev
  proof (cases "outcome_of ?r = Broadcast")
    case True
    with that have "ev = live_event e s"
      by (simp add: followup_create_events)
    then show ?thesis
      using followup_create_Broadcast_entry[OF True] by (simp add: live_event_def)
  next
    case False
    with that have "ev = apology e"
      by (simp add: followup_create_events split: if_splits)
    then show ?thesis by (simp add: apology_def)
  qed
  have rep: "\<exists>m \<in> set (questions s). streamId ev = Some (fst m) \<and> aq_text ev = q_text (snd m)"
    if "ev \<in> set (events (request_replay e' sid' l s))" for ev
  proof -
    from that obtain m where "m \<in> set (take 100 (newer l (questions s)))" "ev = replay_event m"
      by (auto simp: request_replay_events split: if_splits)
    moreover then have "m \<in> set (questions s)"
      by (auto simp: newer_def dest: in_set_takeD)
    ultimately show ?thesis by (auto simp: replay_event_def)
  qed
  from fail ids rep show ?thesis by blast
qed

lemma transform_failure_facts_example:
  "openai envDown = ApiError \<and>
   OpenAI \<in> set (trace_of (followup_create envDown ''r'' payloadA server0)) \<and>
   events (trace_of (followup_create envDown ''r'' payloadA server0)) = [apology envDown] \<and>
   questions (state_of (followup_create envDown ''r'' payloadA server0)) = [] \<and>
   Redis XADD_questions \<notin> set (trace_of (followup_create envDown ''r'' payloadA server0)) \<and>
   live_event envA server0 \<in> set (events (trace_of (followup_create envA ''r'' payloadA server0))) \<and>
   streamId (live_event envA server0) \<noteq> None \<and>
   (\<exists>i f. questions (state_of (followup_create envA ''r'' payloadA server0)) =
            questions server0 @ [(i, f)] \<and>
          streamId (live_event envA server0) = Some i \<and>
          q_text f = aq_text (live_event envA server0)) \<and>
   live_event envA server0
     \<in> set (events (request_replay envB ''p'' None
                (state_of (followup_create envA ''r'' payloadA server0)))) \<and>
   (\<exists>m \<in> set (questions (state_of (followup_create envA ''r'' payloadA server0))).
      streamId (live_event envA server0) = Some (fst m) \<and>
      aq_text (live_event envA server0) = q_text (snd m))"
proof -
  have 1: "openai envDown = ApiError"
    by (simp add: envDown_def)
  have 2: "OpenAI \<in> set (trace_of (followup_create envDown ''r'' payloadA server0))"
    by (simp add: handler_defs envDown_def payloadA_def)
  have 3: "live_event envA server0 \<in> set (events (trace_of (followup_create envA ''r'' payloadA server0)))"
    by (simp add: handler_defs live_event_def envA_def payloadA_def)
  have 4: "streamId (live_event envA server0) \<noteq> None"
    by (simp add: live_event_def)
  have 5: "questions server0 = []"
    by (simp add: server0_def)
  have 6: "live_event envA server0
     \<in> set (events (request_replay envB ''p'' None
                (state_of (followup_create envA ''r'' payloadA server0))))"
    by (simp add: handler_defs live_event_def envA_def envB_def payloadA_def)
  have 7: "\<exists>m \<in> set (questions (state_of (followup_create envA ''r'' payloadA server0))).
      streamId (live_event envA server0) = Some (fst m) \<and>
      aq_text (live_event envA server0) = q_text (snd m)"
    using transform_failure_facts[of envA "''r''" payloadA
        "state_of (followup_create envA ''r'' payloadA server0)" envB "''p''" None] 6
    by blast
  show ?thesis
    using transform_failure_facts[of envDown "''r''" payloadA server0]
      transform_failure_facts[of envA "''r''" payloadA server0] 1 2 3 4 5 6 7
    by auto
qed

subsection \<open>Replay\<close>

lemma appended_snoc:
  "appended (xs @ [x]) = appended xs @ [(next_id (last_id (appended xs)) (fst x), snd x)]"
  by (simp add: appended_def xAdd_def Let_def)

lemma length_appended: "length (appended xs) = length xs"
  by (induction xs rule: rev_induct) (simp_all add: appended_snoc, simp add: appended_def)

lemma sorted_appended: "sorted_wrt id_lt (map fst (appended xs))"
proof (induction xs rule: rev_induct)
  case Nil
  show ?case by (simp add: appended_def)
next
  case (snoc x xs)
  have "appended (xs @ [x]) = fst (xAdd (fst x) (appended xs) (snd x))"
    by (simp add: appended_snoc xAdd_def Let_def)
  with snoc show ?case by (simp add: xAdd_sorted)
qed

lemma id_lt_zero_next: "id_lt (0, 0) (next_id l t)"
  by (cases l) (auto simp: next_id_def)

lemma appended_positive: "m \<in> set (appended xs) \<Longrightarrow> id_lt (0, 0) (fst m)"
proof (induction xs rule: rev_induct)
  case Nil
  then show ?case by (simp add: appended_def)
next
  case (snoc x xs)
  then show ?case by (auto simp: appended_snoc id_lt_zero_next)
qed

lemma newer_None_appended: "newer None (appended xs) = appended xs"
  by (simp add: newer_def appended_positive)

lemma id_lt_asym: "id_lt a b \<Longrightarrow> \<not> id_lt b a"
  by (cases a; cases b) auto

lemma newer_nth:
  assumes srt: "sorted_wrt id_lt (map fst q)" and k: "k < length q"
  shows "newer (Some (fst (q ! k))) q = drop (Suc k) q"
proof -
  have q: "q = take k q @ q ! k # drop (Suc k) q"
    using k by (rule id_take_nth_drop)
  have s: "sorted_wrt id_lt (map fst (take k q) @ fst (q ! k) # map fst (drop (Suc k) q))"
    using srt q by (metis list.simps(9) map_append)
  have before: "\<not> id_lt (fst (q ! k)) (fst m)" if "m \<in> set (take k q)" for m
    using s that by (auto simp: sorted_wrt_append dest: id_lt_asym)
  have after: "id_lt (fst (q ! k)) (fst m)" if "m \<in> set (drop (Suc k) q)" for m
    using s that by (auto simp: sorted_wrt_append)
  have "newer (Some (fst (q ! k))) q =
        filter (\<lambda>m. id_lt (fst (q ! k)) (fst m)) (take k q @ q ! k # drop (Suc k) q)"
    using q by (simp add: newer_def)
  also have "\<dots> = drop (Suc k) q"
    using before after by (simp add: id_lt_irrefl)
  finally show ?thesis .
qed

lemma request_replay_length:
  "length (delivered sid (request_replay e sid l s)) \<le> 100"
  by (simp add: request_replay_delivered request_replay_events)

text \<open>
  C1, as stated, fails: from a log of 101 appended entries, the replay from
  \<^verbatim>\<open>null\<close> does not deliver the 101 entries. The handler reads once, with
  \<^verbatim>\<open>COUNT: 100\<close>, and does not read again.
\<close>

theorem replay_all_counterexample:
  "delivered ''p'' (request_replay envA ''p'' None server101) \<noteq> map replay_event log101"
proof
  assume "delivered ''p'' (request_replay envA ''p'' None server101) = map replay_event log101"
  then have "length (delivered ''p'' (request_replay envA ''p'' None server101)) = 101"
    by (simp add: log101_def length_appended)
  with request_replay_length[of "''p''" envA None server101] show False
    by simp
qed

text \<open>
  C1, amended. With the store reachable, a replay request makes one read of at most 100
  entries. From \<^verbatim>\<open>null\<close> it delivers the first 100 of the N appended entries, in
  append order; from the id of the k-th entry (counted from 0 here) it delivers the
  first 100 of the entries after it, in order. So when at most 100 entries are due, the
  replay delivers exactly those: all N from \<^verbatim>\<open>null\<close>, and the entries after the
  k-th from its id.
\<close>

theorem replay_one_batch:
  assumes log: "questions s = appended xs" and up: "redis_fail e \<noteq> Some 0"
  shows "delivered sid (request_replay e sid None s) =
           take 100 (map replay_event (appended xs)) \<and>
         (k < length xs \<longrightarrow>
            delivered sid (request_replay e sid (Some (fst (appended xs ! k))) s) =
              take 100 (drop (Suc k) (map replay_event (appended xs)))) \<and>
         (length xs \<le> 100 \<longrightarrow>
            delivered sid (request_replay e sid None s) = map replay_event (appended xs)) \<and>
         (k < length xs \<and> length xs \<le> Suc k + 100 \<longrightarrow>
            delivered sid (request_replay e sid (Some (fst (appended xs ! k))) s) =
              drop (Suc k) (map replay_event (appended xs)))"
proof -
  have none: "delivered sid (request_replay e sid None s) =
      take 100 (map replay_event (appended xs))"
    using log up
    by (simp add: request_replay_delivered request_replay_events newer_None_appended take_map)
  have some: "delivered sid (request_replay e sid (Some (fst (appended xs ! k))) s) =
      take 100 (drop (Suc k) (map replay_event (appended xs)))" if "k < length xs"
  proof -
    have "newer (Some (fst (appended xs ! k))) (appended xs) = drop (Suc k) (appended xs)"
      using that by (intro newer_nth sorted_appended) (simp add: length_appended)
    with log up show ?thesis
      by (simp add: request_replay_delivered request_replay_events take_map drop_map)
  qed
  have short: "take 100 (drop (Suc k) (map replay_event (appended xs))) =
      drop (Suc k) (map replay_event (appended xs))" if "length xs \<le> Suc k + 100"
    using that by (intro take_all) (simp add: length_appended)
  have all: "delivered sid (request_replay e sid None s) = map replay_event (appended xs)"
    if "length xs \<le> 100"
    using none that by (simp add: length_appended)
  have rest: "delivered sid (request_replay e sid (Some (fst (appended xs ! k))) s) =
      drop (Suc k) (map replay_event (appended xs))"
    if "k < length xs" and "length xs \<le> Suc k + 100"
    using some[OF that(1)] short[OF that(2)] by simp
  from none some all rest show ?thesis
    by blast
qed

theorem replay_one_batch_witness:
  "questions (server0\<lparr>questions := appended log3\<rparr>) = appended log3 \<and>
   redis_fail envA \<noteq> Some 0 \<and> 0 < length log3 \<and> length log3 \<le> 100 \<and>
   length log3 \<le> Suc 0 + 100 \<and>
   delivered ''p'' (request_replay envA ''p'' None (server0\<lparr>questions := appended log3\<rparr>)) =
     map replay_event (appended log3) \<and>
   delivered ''p'' (request_replay envA ''p'' (Some (fst (appended log3 ! 0)))
       (server0\<lparr>questions := appended log3\<rparr>)) =
     drop (Suc 0) (map replay_event (appended log3)) \<and>
   map aq_text (drop (Suc 0) (map replay_event (appended log3))) = [''q2'', ''q3'']"
proof -
  have 1: "questions (server0\<lparr>questions := appended log3\<rparr>) = appended log3"
    by simp
  have 2: "redis_fail envA \<noteq> Some 0"
    by (simp add: envA_def)
  have 3: "length log3 = 3"
    by (simp add: log3_def)
  have 4: "map aq_text (drop (Suc 0) (map replay_event (appended log3))) = [''q2'', ''q3'']"
    by (simp add: log3_def appended_def xAdd_def last_id_def next_id_def replay_event_def
        Let_def)
  show ?thesis
    using replay_one_batch[OF 1 2, of "''p''" 0] 1 2 3 4 by (simp add: length_appended)
qed

subsection \<open>A reconnecting participant\<close>

lemma processQueue_messages:
  "messages (processQueue p) = messages p" "lastStreamId (processQueue p) = lastStreamId p"
  by (simp_all add: processQueue_def split: list.splits)

lemma on_agent_questions_messages:
  "messages (on_agent_questions ev p) = messages p @ [ev]"
  by (simp add: on_agent_questions_def speak_def processQueue_messages Let_def
      split: option.splits)

lemma on_agent_questions_spoken:
  "begun (rendered (on_agent_questions ev p)) @ speakQueue (on_agent_questions ev p) =
   begun (rendered p) @ speakQueue p @ [aq_text ev]"
  by (auto simp: on_agent_questions_def speak_def processQueue_def Let_def begun_append
      split: option.splits list.splits)

lemma foldl_messages:
  "messages (foldl (\<lambda>p ev. on_agent_questions ev p) p evs) = messages p @ evs"
  by (induction evs arbitrary: p) (simp_all add: on_agent_questions_messages)

lemma foldl_spoken:
  "begun (rendered (foldl (\<lambda>p ev. on_agent_questions ev p) p evs)) @
   speakQueue (foldl (\<lambda>p ev. on_agent_questions ev p) p evs) =
   begun (rendered p) @ speakQueue p @ map aq_text evs"
  by (induction evs arbitrary: p) (simp_all add: on_agent_questions_spoken)

lemma receive_messages: "messages (receive sid t p) = messages p @ delivered sid t"
  by (simp add: receive_def foldl_messages)

lemma receive_spoken:
  "begun (rendered (receive sid t p)) @ speakQueue (receive sid t p) =
   begun (rendered p) @ speakQueue p @ map aq_text (delivered sid t)"
  by (simp add: receive_def foldl_spoken)

lemma replay_event_inj: "replay_event m = replay_event m' \<Longrightarrow> fst m = fst m'"
  by (simp add: replay_event_def)

lemma sorted_nth_not_in_take:
  assumes "sorted_wrt id_lt (map fst q)" and "n < length q"
  shows "replay_event (q ! n) \<notin> set (map replay_event (take n q))"
proof
  assume "replay_event (q ! n) \<in> set (map replay_event (take n q))"
  then obtain m where m: "m \<in> set (take n q)" "replay_event (q ! n) = replay_event m"
    by auto
  then obtain i where i: "i < n" "m = q ! i"
    using assms(2) by (auto simp: in_set_conv_nth)
  have "id_lt (map fst q ! i) (map fst q ! n)"
    using assms i by (intro sorted_wrt_nth_less) simp_all
  then have "id_lt (fst m) (fst (q ! n))"
    using assms(2) i by simp
  with replay_event_inj[OF m(2)] show False
    by (simp add: id_lt_irrefl)
qed

lemma live_event_not_replayed:
  assumes "sorted_wrt id_lt (map fst (questions s))" and "m \<in> set (questions s)"
  shows "replay_event m \<noteq> live_event e s"
proof
  assume "replay_event m = live_event e s"
  then have "fst m = next_id (last_id (questions s)) (now e)"
    by (simp add: replay_event_def live_event_def)
  moreover have "id_lt (fst m) (next_id (last_id (questions s)) (now e))"
    using below_last[OF assms] id_lt_next[of "last_id (questions s)" "now e"]
    by (auto intro: id_lt_trans)
  ultimately show False by (simp add: id_lt_irrefl)
qed

subsection \<open>The keys\<close>

lemma rate_limit_ok:
  assumes "redis_fail e \<noteq> Some 0" and "redis_fail e \<noteq> Some 1"
  shows "rate_limit e sid s =
     (s\<lparr>kvs := (kvs s)(RateKey sid \<mapsto> (Suc (count_of (now e) s sid), Some (now e + 60000)))\<rparr>,
      [Redis INCR, Redis EXPIRE],
      if 10 < Suc (count_of (now e) s sid) then Some RateLimited else None)"
proof (cases "live (now e) (kvs s) (RateKey sid)")
  case None
  then have "count_of (now e) s sid = 0"
    by (simp add: count_of_def kv_get_def)
  with None assms show ?thesis
    by (simp add: rate_limit_def incr_def expire_def live_def)
next
  case (Some a)
  obtain v ex where a: "a = (v, ex)"
    by (cases a)
  from Some a have ex: "\<not> expired (now e) ex"
    by (auto simp: live_def split: option.splits if_splits)
  from Some a have "count_of (now e) s sid = v"
    by (simp add: count_of_def kv_get_def)
  with Some a ex assms show ?thesis
    by (simp add: rate_limit_def incr_def expire_def live_def)
qed

lemma rate_limit_other_keys:
  "k \<noteq> RateKey sid \<Longrightarrow> kvs (fst (rate_limit e sid s)) k = kvs s k"
  by (cases "kvs s (RateKey sid)")
    (auto simp: rate_limit_def incr_def expire_def live_def Let_def split: prod.splits)

lemma dedupe_other_keys:
  "k \<noteq> DedupKey (items d) \<Longrightarrow> kvs (fst (dedupe e d s)) k = kvs s k"
  by (auto simp: dedupe_def set_ex_def split: option.splits)

lemma generate_kvs: "kvs (fst (generate e sid d s)) = kvs s"
  by (auto simp: generate_def Let_def split: prod.splits completion.splits)

lemma followup_create_kvs:
  "kvs (state_of (followup_create e sid d s)) k =
     (if validate d = None
      then (if k = RateKey sid then kvs (fst (rate_limit e sid s)) k
            else if snd (snd (rate_limit e sid s)) = None \<and> k = DedupKey (items d)
                 then kvs (fst (dedupe e d (fst (rate_limit e sid s)))) k
                 else kvs s k)
      else kvs s k)"
proof (cases rule: followup_create_cases[of d e sid s])
  case (shape r)
  then show ?thesis by (simp add: state_of_def)
next
  case (rate s1 t1 r)
  then show ?thesis using rate_limit_other_keys[of k sid e s]
    by (auto simp: state_of_def)
next
  case (dedup s1 t1 s2 t2 r)
  then show ?thesis
    using rate_limit_other_keys[of k sid e s] dedupe_other_keys[of k d e s1]
    by (auto simp: state_of_def)
next
  case (gen s1 t1 s2 t2 s3 t3 r)
  then show ?thesis
    using rate_limit_other_keys[of k sid e s] dedupe_other_keys[of k d e s1]
      generate_kvs[of e sid d s2]
    by (auto simp: state_of_def)
qed

lemma followup_create_rate_other:
  "sid' \<noteq> sid \<Longrightarrow>
   kvs (state_of (followup_create e sid d s)) (RateKey sid') = kvs s (RateKey sid')"
  by (simp add: followup_create_kvs)

lemma followup_create_rate_own:
  assumes "validate d = None" and "redis_fail e \<noteq> Some 0" and "redis_fail e \<noteq> Some 1"
  shows "kvs (state_of (followup_create e sid d s)) (RateKey sid) =
     Some (Suc (count_of (now e) s sid), Some (now e + 60000))"
  using assms by (simp add: followup_create_kvs rate_limit_ok)

lemma outcome_RateLimited:
  assumes "validate d = None" and "redis_fail e \<noteq> Some 0" and "redis_fail e \<noteq> Some 1"
  shows "outcome_of (followup_create e sid d s) = RateLimited \<longleftrightarrow>
         10 < Suc (count_of (now e) s sid)"
proof (cases rule: followup_create_cases[of d e sid s])
  case (shape r)
  with assms show ?thesis by simp
next
  case (rate s1 t1 r)
  with assms show ?thesis
    by (auto simp: rate_limit_ok outcome_of_def split: if_splits)
next
  case (dedup s1 t1 s2 t2 r)
  with assms show ?thesis using dedupe_trace[of e d s1 s2 t2 "Some r"]
    by (auto simp: rate_limit_ok outcome_of_def split: if_splits)
next
  case (gen s1 t1 s2 t2 s3 t3 r)
  with assms show ?thesis using generate_trace[of e sid d s2 s3 t3 r]
    by (auto simp: rate_limit_ok outcome_of_def split: if_splits)
qed

lemma serve_rate_other:
  "\<not> on_socket sid r \<Longrightarrow> kvs (serve s r) (RateKey sid) = kvs s (RateKey sid)"
  by (cases r) (auto simp: followup_create_rate_other)

lemma serve_all_rate_other:
  "\<forall>r \<in> set rs. \<not> on_socket sid r \<Longrightarrow>
   kvs (serve_all s rs) (RateKey sid) = kvs s (RateKey sid)"
  unfolding serve_all_def
  by (induction rs arbitrary: s) (simp_all add: serve_rate_other)

lemma with_counter_rate_limit:
  assumes "sid' \<noteq> sid"
  shows "rate_limit e sid (with_counter sid' v s) =
     (with_counter sid' v (fst (rate_limit e sid s)), snd (rate_limit e sid s))"
  using assms
  by (cases "kvs s (RateKey sid)")
    (auto simp: rate_limit_def incr_def expire_def live_def with_counter_def Let_def
      fun_upd_twist)

lemma with_counter_dedupe:
  "dedupe e d (with_counter sid' v s) =
     (with_counter sid' v (fst (dedupe e d s)), snd (dedupe e d s))"
  by (auto simp: dedupe_def kv_get_def live_def set_ex_def with_counter_def fun_upd_twist
      split: option.splits)

lemma with_counter_generate:
  "generate e sid d (with_counter sid' v s) =
     (with_counter sid' v (fst (generate e sid d s)), snd (generate e sid d s))"
  by (auto simp: generate_def with_counter_def Let_def split: prod.splits completion.splits)

lemma with_counter_followup_create:
  assumes "sid' \<noteq> sid"
  shows "followup_create e sid d (with_counter sid' v s) =
     (with_counter sid' v (state_of (followup_create e sid d s)),
      trace_of (followup_create e sid d s), outcome_of (followup_create e sid d s))"
proof (cases rule: followup_create_cases[of d e sid s])
  case (shape r)
  then show ?thesis
    by (simp add: followup_create_def state_of_def trace_of_def outcome_of_def)
next
  case (rate s1 t1 r)
  then show ?thesis using with_counter_rate_limit[OF assms, of e v s]
    by (simp add: followup_create_def state_of_def trace_of_def outcome_of_def)
next
  case (dedup s1 t1 s2 t2 r)
  then show ?thesis
    using with_counter_rate_limit[OF assms, of e v s] with_counter_dedupe[of e d sid' v s1]
    by (simp add: followup_create_def state_of_def trace_of_def outcome_of_def)
next
  case (gen s1 t1 s2 t2 s3 t3 r)
  then show ?thesis
    using with_counter_rate_limit[OF assms, of e v s] with_counter_dedupe[of e d sid' v s1]
      with_counter_generate[of e sid d sid' v s2]
    by (simp add: followup_create_def state_of_def trace_of_def outcome_of_def)
qed

lemma count_after_own:
  assumes "validate d = None" and "redis_fail e = None"
  shows "count_of t (state_of (followup_create e sid d s)) sid =
     (if now e + 60000 < t then 0 else Suc (count_of (now e) s sid))"
  using followup_create_rate_own[of d e sid s] assms
  by (simp add: count_of_def kv_get_def live_def)

text \<open>
  C10. The rate counter is keyed by the socket id. A submission on the socket \<open>sid\<close>
  leaves the counter of every other socket as it was, and neither its result nor what it
  does depends on the counter of another socket; a counted submission increments the
  counter of its own socket. A socket on which no submission was handled has no counter
  in the store, that is a window count of zero, whatever was handled on other sockets.
\<close>

theorem rate_limit_per_connection:
  "(sid' \<noteq> sid \<longrightarrow>
      kvs (state_of (followup_create e sid d s)) (RateKey sid') = kvs s (RateKey sid') \<and>
      count_of t (state_of (followup_create e sid d s)) sid' = count_of t s sid' \<and>
      followup_create e sid d (with_counter sid' v s) =
        (with_counter sid' v (state_of (followup_create e sid d s)),
         trace_of (followup_create e sid d s), outcome_of (followup_create e sid d s))) \<and>
   (validate d = None \<and> redis_fail e = None \<longrightarrow>
      count_of (now e) (state_of (followup_create e sid d s)) sid =
        Suc (count_of (now e) s sid)) \<and>
   ((\<forall>q \<in> set rs. \<not> on_socket sid q) \<longrightarrow>
      kvs (serve_all server0 rs) (RateKey sid) = None \<and>
      count_of t (serve_all server0 rs) sid = 0)"
proof -
  have a: "kvs (state_of (followup_create e sid d s)) (RateKey sid') = kvs s (RateKey sid')"
    if "sid' \<noteq> sid"
    using that by (rule followup_create_rate_other)
  have b: "count_of t (state_of (followup_create e sid d s)) sid' = count_of t s sid'"
    if "sid' \<noteq> sid"
    using a[OF that] by (simp add: count_of_def kv_get_def live_def)
  have c: "followup_create e sid d (with_counter sid' v s) =
        (with_counter sid' v (state_of (followup_create e sid d s)),
         trace_of (followup_create e sid d s), outcome_of (followup_create e sid d s))"
    if "sid' \<noteq> sid"
    using that by (rule with_counter_followup_create)
  have d: "count_of (now e) (state_of (followup_create e sid d s)) sid =
        Suc (count_of (now e) s sid)"
    if "validate d = None" and "redis_fail e = None"
    using that by (simp add: count_after_own)
  have f: "kvs (serve_all server0 rs) (RateKey sid) = None"
    if "\<forall>q \<in> set rs. \<not> on_socket sid q"
    using serve_all_rate_other[OF that, of server0] by (simp add: server0_def)
  have g: "count_of t (serve_all server0 rs) sid = 0"
    if "\<forall>q \<in> set rs. \<not> on_socket sid q"
    using f[OF that] by (simp add: count_of_def kv_get_def live_def)
  from a b c d f g show ?thesis by blast
qed

theorem rate_limit_per_connection_witness:
  "''p'' \<noteq> ''r'' \<and> validate payloadA = None \<and> redis_fail envA = None \<and>
   \<not> on_socket ''p'' (FollowUp envA ''r'' payloadA) \<and>
   kvs (state_of (followup_create envA ''r'' payloadA server0)) (RateKey ''p'') = None \<and>
   count_of 1000 (state_of (followup_create envA ''r'' payloadA server0)) ''r'' = 1 \<and>
   count_of 1000 (serve_all server0 [FollowUp envA ''r'' payloadA]) ''p'' = 0"
proof -
  have 1: "''p'' \<noteq> ''r''"
    by simp
  have 2: "validate payloadA = None"
    by (simp add: validate_def payloadA_def)
  have 3: "redis_fail envA = None" "now envA = 1000"
    by (simp_all add: envA_def)
  have 4: "\<forall>q \<in> set [FollowUp envA ''r'' payloadA]. \<not> on_socket ''p'' q"
    by simp
  have 5: "kvs server0 (RateKey ''p'') = None" "count_of 1000 server0 ''r'' = 0"
    by (simp_all add: server0_def count_of_def kv_get_def live_def)
  show ?thesis
    using rate_limit_per_connection[where sid' = "''p''" and sid = "''r''" and e = envA
        and d = payloadA and s = server0 and t = 1000 and rs = "[FollowUp envA ''r'' payloadA]"]
      rate_limit_per_connection[where sid' = "''r''" and sid = "''p''" and e = envA
        and d = payloadA and s = server0 and t = 1000 and rs = "[FollowUp envA ''r'' payloadA]"]
      1 2 3 4 5
    by simp
qed

subsection \<open>The window of the rate limit\<close>

lemma serve_counted:
  assumes w: "within t0 r"
    and n: "n = 0 \<or> (\<exists>c x. kvs s (RateKey sid) = Some (c, Some x) \<and> n \<le> c \<and> t0 + 60000 \<le> x)"
    and c: "counted sid r"
  shows "\<exists>c x. kvs (serve s r) (RateKey sid) = Some (c, Some x) \<and>
           n + 1 \<le> c \<and> t0 + 60000 \<le> x"
proof (cases r)
  case (FollowUp e sid' d)
  with c have sid: "sid' = sid" and v: "validate d = None"
    by simp_all
  from w FollowUp have up: "redis_fail e = None" and t: "t0 \<le> now e" "now e < t0 + 60000"
    by (simp_all add: within_def)
  have "n \<le> count_of (now e) s sid"
    using n t by (auto simp: count_of_def kv_get_def live_def)
  then show ?thesis
    using FollowUp sid v up t followup_create_rate_own[of d e sid s] by simp
next
  case (Replay e sid' l)
  with c show ?thesis by simp
qed

lemma serve_not_counted:
  assumes n: "n = 0 \<or> (\<exists>c x. kvs s (RateKey sid) = Some (c, Some x) \<and> n \<le> c \<and> t0 + 60000 \<le> x)"
    and c: "\<not> counted sid r"
  shows "n = 0 \<or> (\<exists>c x. kvs (serve s r) (RateKey sid) = Some (c, Some x) \<and>
           n \<le> c \<and> t0 + 60000 \<le> x)"
proof (cases r)
  case (FollowUp e sid' d)
  show ?thesis
  proof (cases "sid' = sid")
    case True
    with c FollowUp obtain r' where "validate d = Some r'"
      by auto
    then have "serve s r = s"
      using FollowUp by (simp add: validate_shape_unchanged state_of_def)
    with n show ?thesis by simp
  next
    case False
    then have "kvs (serve s r) (RateKey sid) = kvs s (RateKey sid)"
      using FollowUp by (simp add: followup_create_rate_other)
    with n show ?thesis by simp
  qed
next
  case (Replay e sid' l)
  with n show ?thesis by simp
qed

lemma serve_all_counts:
  assumes "\<forall>r \<in> set rs. within t0 r"
    and "n = 0 \<or> (\<exists>c x. kvs s (RateKey sid) = Some (c, Some x) \<and> n \<le> c \<and> t0 + 60000 \<le> x)"
  shows "n + length (filter (counted sid) rs) = 0 \<or>
     (\<exists>c x. kvs (serve_all s rs) (RateKey sid) = Some (c, Some x) \<and>
        n + length (filter (counted sid) rs) \<le> c \<and> t0 + 60000 \<le> x)"
  using assms
proof (induction rs arbitrary: s n)
  case Nil
  then show ?case by (simp add: serve_all_def)
next
  case (Cons r rs)
  from Cons.prems have w: "within t0 r" and ws: "\<forall>r \<in> set rs. within t0 r"
    by simp_all
  show ?case
  proof (cases "counted sid r")
    case True
    have "Suc n = 0 \<or> (\<exists>c x. kvs (serve s r) (RateKey sid) = Some (c, Some x) \<and>
        Suc n \<le> c \<and> t0 + 60000 \<le> x)"
      using serve_counted[OF w Cons.prems(2) True] by simp
    from Cons.IH[OF ws this] True show ?thesis
      by (simp add: serve_all_def)
  next
    case False
    from Cons.IH[OF ws serve_not_counted[OF Cons.prems(2) False]] False show ?thesis
      by (simp add: serve_all_def)
  qed
qed

lemma eleventh_rate_limited:
  assumes w: "\<forall>r \<in> set rs. within t0 r"
    and ten: "10 \<le> length (filter (counted sid) rs)"
    and t: "t0 \<le> now e" "now e < t0 + 60000"
    and v: "validate d = None" and up: "redis_fail e = None"
  shows "outcome_of (followup_create e sid d (serve_all s rs)) = RateLimited"
proof -
  have "0 + length (filter (counted sid) rs) = 0 \<or>
     (\<exists>c x. kvs (serve_all s rs) (RateKey sid) = Some (c, Some x) \<and>
        0 + length (filter (counted sid) rs) \<le> c \<and> t0 + 60000 \<le> x)"
    using w by (intro serve_all_counts) simp_all
  with ten obtain c x where "kvs (serve_all s rs) (RateKey sid) = Some (c, Some x)"
    "10 \<le> c" "t0 + 60000 \<le> x"
    by auto
  with t have "10 \<le> count_of (now e) (serve_all s rs) sid"
    by (simp add: count_of_def kv_get_def live_def)
  with v up show ?thesis
    by (simp add: outcome_RateLimited)
qed

text \<open>
  The counter as the code keeps it. For a submission that reaches the rate limit (it
  passes the shape checks) with the store reachable: the count of its socket is
  incremented by this call and its expiry is set to 60 seconds from this call; the
  submission is rejected with \<open>RateLimited\<close> exactly when the incremented count exceeds
  10; the incremented count stays visible for the 60 seconds after the call and is gone
  once they have elapsed without another call. After ten counted submissions of one
  socket within 60 seconds the next one within these 60 seconds is rejected.
\<close>

lemma rate_counter:
  assumes shape: "validate d = None" and up: "redis_fail e = None"
  shows "count_of (now e) (state_of (followup_create e sid d s)) sid =
           Suc (count_of (now e) s sid) \<and>
         kvs (state_of (followup_create e sid d s)) (RateKey sid) =
           Some (Suc (count_of (now e) s sid), Some (now e + 60000)) \<and>
         (outcome_of (followup_create e sid d s) = RateLimited \<longleftrightarrow>
            10 < Suc (count_of (now e) s sid)) \<and>
         (count_of (now e) s sid = 0 \<longrightarrow>
            outcome_of (followup_create e sid d s) \<noteq> RateLimited) \<and>
         (\<forall>t. now e \<le> t \<and> t < now e + 60000 \<longrightarrow>
            count_of t (state_of (followup_create e sid d s)) sid =
              Suc (count_of (now e) s sid)) \<and>
         (\<forall>t. now e + 60000 < t \<longrightarrow>
            count_of t (state_of (followup_create e sid d s)) sid = 0) \<and>
         ((\<forall>q \<in> set rs. within start q) \<and> 10 \<le> length (filter (counted sid) rs) \<and>
          start \<le> now e \<and> now e < start + 60000 \<longrightarrow>
            outcome_of (followup_create e sid d (serve_all base rs)) = RateLimited)"
proof -
  have a: "count_of t (state_of (followup_create e sid d s)) sid =
     (if now e + 60000 < t then 0 else Suc (count_of (now e) s sid))" for t
    using shape up by (rule count_after_own)
  have b: "kvs (state_of (followup_create e sid d s)) (RateKey sid) =
           Some (Suc (count_of (now e) s sid), Some (now e + 60000))"
    using shape up by (simp add: followup_create_rate_own)
  have c: "outcome_of (followup_create e sid d s) = RateLimited \<longleftrightarrow>
            10 < Suc (count_of (now e) s sid)"
    using shape up by (simp add: outcome_RateLimited)
  have d: "outcome_of (followup_create e sid d (serve_all base rs)) = RateLimited"
    if "\<forall>q \<in> set rs. within start q" and "10 \<le> length (filter (counted sid) rs)"
      and "start \<le> now e" and "now e < start + 60000"
    using that shape up by (rule eleventh_rate_limited)
  from a b c d show ?thesis by auto
qed

subsection \<open>Dedupe marks\<close>

lemma validate_items: "items d' = items d \<Longrightarrow> validate d' = validate d"
  by (simp add: validate_def)

lemma dedupe_ok:
  assumes "redis_fail e \<noteq> Some 2" and "redis_fail e \<noteq> Some 3"
  shows "dedupe e d s =
     (case kv_get (now e) (kvs s) (DedupKey (items d)) of
        Some v \<Rightarrow> (s, [Redis GET], Some Duplicate)
      | None \<Rightarrow>
          (s\<lparr>kvs := (kvs s)(DedupKey (items d) \<mapsto> (1, Some (now e + 300000)))\<rparr>,
           [Redis GET, Redis SET], None))"
  using assms by (simp add: dedupe_def set_ex_def split: option.splits)

lemma kv_get_after_rate_limit:
  "kv_get t (kvs (fst (rate_limit e sid s))) (DedupKey its) = kv_get t (kvs s) (DedupKey its)"
  by (simp add: kv_get_def live_def rate_limit_other_keys)

lemma outcome_Duplicate:
  assumes v: "validate d = None" and up: "redis_fail e = None"
    and rate: "Suc (count_of (now e) s sid) \<le> 10"
  shows "outcome_of (followup_create e sid d s) = Duplicate \<longleftrightarrow>
         kv_get (now e) (kvs s) (DedupKey (items d)) \<noteq> None"
proof (cases rule: followup_create_cases[of d e sid s])
  case (shape r)
  with v show ?thesis by simp
next
  case (rate s1 t1 r)
  with up \<open>Suc (count_of (now e) s sid) \<le> 10\<close> show ?thesis
    by (simp add: rate_limit_ok)
next
  case (dedup s1 t1 s2 t2 r)
  have "kv_get (now e) (kvs s1) (DedupKey (items d)) = kv_get (now e) (kvs s) (DedupKey (items d))"
    using kv_get_after_rate_limit[of "now e" e sid s "items d"] dedup(2) by simp
  with dedup up show ?thesis
    by (auto simp: dedupe_ok outcome_of_def split: option.splits)
next
  case (gen s1 t1 s2 t2 s3 t3 r)
  have "kv_get (now e) (kvs s1) (DedupKey (items d)) = kv_get (now e) (kvs s) (DedupKey (items d))"
    using kv_get_after_rate_limit[of "now e" e sid s "items d"] gen(2) by simp
  with gen up show ?thesis using generate_trace[of e sid d s2 s3 t3 r]
    by (auto simp: dedupe_ok outcome_of_def split: option.splits)
qed

lemma mark_after:
  assumes v: "validate d = None" and up: "redis_fail e = None"
    and rate: "Suc (count_of (now e) s sid) \<le> 10"
  shows "kvs (state_of (followup_create e sid d s)) (DedupKey (items d)) =
     (if kv_get (now e) (kvs s) (DedupKey (items d)) = None
      then Some (1, Some (now e + 300000)) else kvs s (DedupKey (items d)))"
proof -
  have r: "snd (snd (rate_limit e sid s)) = None"
    using up rate by (simp add: rate_limit_ok)
  have k: "kv_get (now e) (kvs (fst (rate_limit e sid s))) (DedupKey (items d)) =
      kv_get (now e) (kvs s) (DedupKey (items d))"
    by (rule kv_get_after_rate_limit)
  have o: "kvs (fst (rate_limit e sid s)) (DedupKey (items d)) = kvs s (DedupKey (items d))"
    by (simp add: rate_limit_other_keys)
  show ?thesis
    using v up r k o
    by (auto simp: followup_create_kvs dedupe_ok split: option.splits)
qed

lemma serve_mark_other:
  "\<not> submits its r \<Longrightarrow> kvs (serve s r) (DedupKey its) = kvs s (DedupKey its)"
  by (cases r) (auto simp: followup_create_kvs)

lemma serve_all_mark_other:
  "\<forall>r \<in> set rs. \<not> submits its r \<Longrightarrow>
   kvs (serve_all s rs) (DedupKey its) = kvs s (DedupKey its)"
  unfolding serve_all_def
  by (induction rs arbitrary: s) (simp_all add: serve_mark_other)

text \<open>
  C6, as stated, fails: after ten submissions on the socket \<open>r\<close> and an accepted
  submission of the items of \<open>payloadA\<close> on another socket, all within a second, a live
  mark exists for these items, and the submission of the same items on \<open>r\<close> is
  rejected with \<open>RateLimited\<close>, not with \<open>Duplicate\<close>.
\<close>

theorem duplicate_iff_mark_counterexample:
  "kv_get (now envA) (kvs (serve_all server0 busy)) (DedupKey (items payloadA)) = Some 1 \<and>
   outcome_of (followup_create envA ''r'' payloadA (serve_all server0 busy)) = RateLimited"
proof -
  let ?ten = "replicate 10 (FollowUp envA ''r'' payloadB)"
  have vA: "validate payloadA = None" and vB: "validate payloadB = None"
    by (simp_all add: validate_def payloadA_def payloadB_def)
  have e: "redis_fail envA = None" "now envA = 1000"
    by (simp_all add: envA_def)
  have sp: "serve_all server0 busy =
      state_of (followup_create envA ''a'' payloadA (serve_all server0 ?ten))"
    by (simp add: busy_def serve_all_def)
  have "kvs (serve_all server0 ?ten) (RateKey ''a'') = kvs server0 (RateKey ''a'')"
    by (intro serve_all_rate_other) simp
  then have c: "count_of 1000 (serve_all server0 ?ten) ''a'' = 0"
    by (simp add: count_of_def kv_get_def live_def server0_def)
  have "kvs (serve_all server0 ?ten) (DedupKey (items payloadA)) =
      kvs server0 (DedupKey (items payloadA))"
    by (intro serve_all_mark_other) (simp add: payloadA_def payloadB_def)
  then have m: "kv_get 1000 (kvs (serve_all server0 ?ten)) (DedupKey (items payloadA)) = None"
    by (simp add: kv_get_def live_def server0_def)
  have mark: "kvs (serve_all server0 busy) (DedupKey (items payloadA)) =
      Some (1, Some 301000)"
    unfolding sp using mark_after[OF vA e(1), of "serve_all server0 ?ten" "''a''"] c m e(2)
    by simp
  have w: "\<forall>q \<in> set busy. within 1000 q"
    by (auto simp: busy_def within_def e)
  have n: "10 \<le> length (filter (counted ''r'') busy)"
    by (simp add: busy_def vB)
  have "outcome_of (followup_create envA ''r'' payloadA (serve_all server0 busy)) = RateLimited"
    using w n _ _ vA e(1) by (rule eleventh_rate_limited) (simp_all add: e)
  with mark show ?thesis
    by (simp add: kv_get_def live_def e)
qed

lemma mark_created:
  assumes v: "validate d = None" and up: "redis_fail e = None"
    and rate: "Suc (count_of (now e) s sid) \<le> 10"
    and acc: "outcome_of (followup_create e sid d s) \<noteq> Duplicate"
  shows "kvs (state_of (followup_create e sid d s)) (DedupKey (items d)) =
              Some (1, Some (now e + 300000))"
proof -
  have "kv_get (now e) (kvs s) (DedupKey (items d)) = None"
    using acc outcome_Duplicate[OF v up rate] by blast
  then show ?thesis
    using mark_after[OF v up rate] by simp
qed

lemma mark_kept:
  assumes v: "validate d = None" and up: "redis_fail e = None"
    and rate: "Suc (count_of (now e) s sid) \<le> 10"
    and dup: "outcome_of (followup_create e sid d s) = Duplicate"
  shows "kvs (state_of (followup_create e sid d s)) (DedupKey (items d)) =
             kvs s (DedupKey (items d))"
proof -
  have "kv_get (now e) (kvs s) (DedupKey (items d)) \<noteq> None"
    using dup outcome_Duplicate[OF v up rate] by blast
  then have "(kv_get (now e) (kvs s) (DedupKey (items d)) = None) = False"
    by blast
  then show ?thesis
    by (simp only: mark_after[OF v up rate] if_False)
qed

subsection \<open>A handler run step by step\<close>

lemma finish_generate:
  "finish e sid d AwaitXAddFollowups s =
     (case generate e sid d s of (s3, t3, r) \<Rightarrow> (s3, t3 @ catch e sid r, r))"
  by (simp add: finish.simps[of _ _ _ AwaitXAddFollowups] finish.simps[of _ _ _ AwaitOpenAI]
      finish.simps[of _ _ _ "AwaitXAddQuestions _"] finish.simps[of _ _ _ "AwaitPublish _ _"]
      generate_def catch_def Let_def case_prod_beta split: completion.splits)

lemma finish_dedupe:
  "finish e sid d AwaitGet s =
     (case dedupe e d s of
        (s2, t2, Some r) \<Rightarrow> (s2, t2 @ catch e sid r, r)
      | (s2, t2, None) \<Rightarrow>
          (case generate e sid d s2 of (s3, t3, r) \<Rightarrow> (s3, t2 @ t3 @ catch e sid r, r)))"
  by (simp add: finish.simps[of _ _ _ AwaitGet] finish.simps[of _ _ _ AwaitSet] finish_generate
      dedupe_def catch_def Let_def case_prod_beta split: option.splits)

lemma finish_rate_limit:
  "finish e sid d AwaitIncr s =
     (case rate_limit e sid s of
        (s1, t1, Some r) \<Rightarrow> (s1, t1 @ catch e sid r, r)
      | (s1, t1, None) \<Rightarrow>
          (case finish e sid d AwaitGet s1 of (s2, t2, r) \<Rightarrow> (s2, t1 @ t2, r)))"
  by (simp add: finish.simps[of _ _ _ AwaitIncr] finish.simps[of _ _ _ "AwaitExpire _"]
      rate_limit_def catch_def Let_def case_prod_beta)

lemma followup_create_finish:
  "followup_create e sid d s =
     (case validate d of Some r \<Rightarrow> (s, [], r) | None \<Rightarrow> finish e sid d AwaitIncr s)"
  by (auto simp: followup_create_def finish_rate_limit finish_dedupe
      split: option.splits prod.splits)

lemma run_append:
  "run \<sigma> (ms1 @ ms2) =
     (fst (run (fst (run \<sigma> ms1)) ms2), snd (run \<sigma> ms1) @ snd (run (fst (run \<sigma> ms1)) ms2))"
  by (induction ms1 arbitrary: \<sigma>) (simp_all add: Let_def)

lemma delivered_append: "delivered sid (t1 @ t2) = delivered sid t1 @ delivered sid t2"
  by (induction t1 rule: delivered.induct) auto

lemma events_append: "events (t1 @ t2) = events t1 @ events t2"
  by (induction t1 rule: events.induct) auto

lemma advance_rank:
  "snd (snd (advance e sid d p s)) = Inl p' \<Longrightarrow> rank p' = Suc (rank p) \<and> rank p < 7"
  by (cases p) (auto simp: Let_def case_prod_beta split: if_splits option.splits completion.splits)

lemma rank_bound: "rank p < 8"
  by (cases p) simp_all

lemma run_finished:
  assumes "i < length (tasks \<sigma>)" and "tasks \<sigma> ! i = (sid, d, Inr out)"
  shows "run \<sigma> (replicate k (Resume i e)) = (\<sigma>, [])"
  using assms by (induction k) (simp_all add: Let_def)

lemma run_solo:
  assumes "i < length (tasks \<sigma>)" and "tasks \<sigma> ! i = (sid, d, Inl p)"
    and "n = 8 - rank p"
  shows "run \<sigma> (replicate n (Resume i e)) =
     (\<sigma>\<lparr>srv := fst (finish e sid d p (srv \<sigma>)),
        tasks := (tasks \<sigma>)[i := (sid, d, Inr (snd (snd (finish e sid d p (srv \<sigma>)))))]\<rparr>,
      fst (snd (finish e sid d p (srv \<sigma>))))"
  using assms
proof (induction n arbitrary: \<sigma> p)
  case 0
  with rank_bound[of p] show ?case by simp
next
  case (Suc n)
  let ?r = "advance e sid d p (srv \<sigma>)"
  let ?\<sigma>1 = "\<sigma>\<lparr>srv := fst ?r, tasks := (tasks \<sigma>)[i := (sid, d, snd (snd ?r))]\<rparr>"
  have step: "move_step \<sigma> (Resume i e) = (?\<sigma>1, fst (snd ?r))"
    using Suc.prems by (simp add: Let_def)
  have len: "i < length (tasks ?\<sigma>1)" and at: "tasks ?\<sigma>1 ! i = (sid, d, snd (snd ?r))"
    using Suc.prems by simp_all
  show ?case
  proof (cases "snd (snd ?r)")
    case (Inr out)
    have "run ?\<sigma>1 (replicate n (Resume i e)) = (?\<sigma>1, [])"
      using len at Inr by (intro run_finished) simp_all
    then show ?thesis
      using step Inr by (simp add: finish.simps[of e sid d p] Let_def)
  next
    case (Inl p')
    from advance_rank[OF Inl] Suc.prems have n: "n = 8 - rank p'"
      by simp
    have "run ?\<sigma>1 (replicate n (Resume i e)) =
     (?\<sigma>1\<lparr>srv := fst (finish e sid d p' (srv ?\<sigma>1)),
        tasks := (tasks ?\<sigma>1)[i := (sid, d, Inr (snd (snd (finish e sid d p' (srv ?\<sigma>1)))))]\<rparr>,
      fst (snd (finish e sid d p' (srv ?\<sigma>1))))"
      using len at Inl n by (intro Suc.IH) simp_all
    then show ?thesis
      using step Inl by (simp add: finish.simps[of e sid d p] Let_def)
  qed
qed

lemma arrive_and_run:
  "run \<sigma> (Arrive sid d # replicate 8 (Resume (length (tasks \<sigma>)) e)) =
     (\<sigma>\<lparr>srv := state_of (followup_create e sid d (srv \<sigma>)),
        tasks := tasks \<sigma> @ [(sid, d, Inr (outcome_of (followup_create e sid d (srv \<sigma>))))]\<rparr>,
      trace_of (followup_create e sid d (srv \<sigma>)))"
proof (cases "validate d")
  case (Some r)
  let ?\<sigma>1 = "\<sigma>\<lparr>tasks := tasks \<sigma> @ [(sid, d, Inr r)]\<rparr>"
  have "run ?\<sigma>1 (replicate 8 (Resume (length (tasks \<sigma>)) e)) = (?\<sigma>1, [])"
    by (intro run_finished[where sid = sid and d = d and out = r]) simp_all
  with Some show ?thesis
    by (simp add: Let_def followup_create_finish state_of_def trace_of_def outcome_of_def)
next
  case None
  let ?\<sigma>1 = "\<sigma>\<lparr>tasks := tasks \<sigma> @ [(sid, d, Inl AwaitIncr)]\<rparr>"
  have "run ?\<sigma>1 (replicate 8 (Resume (length (tasks \<sigma>)) e)) =
     (?\<sigma>1\<lparr>srv := fst (finish e sid d AwaitIncr (srv ?\<sigma>1)),
        tasks := (tasks ?\<sigma>1)[length (tasks \<sigma>) :=
           (sid, d, Inr (snd (snd (finish e sid d AwaitIncr (srv ?\<sigma>1)))))]\<rparr>,
      fst (snd (finish e sid d AwaitIncr (srv ?\<sigma>1))))"
    by (intro run_solo) simp_all
  with None show ?thesis
    by (simp add: Let_def followup_create_finish state_of_def trace_of_def outcome_of_def)
qed

subsection \<open>A session of a participant\<close>

lemma session_messages:
  "messages (session sid p \<sigma> pre e post) =
     messages p @ delivered sid (snd (run \<sigma> pre)) @
     (if redis_fail e = Some 0 then []
      else map replay_event
             (take 100 (newer (lastStreamId p) (questions (srv (fst (run \<sigma> pre))))))) @
     delivered sid (snd (run (fst (run \<sigma> pre)) post))"
  by (simp add: session_def on_connect_def receive_messages run_append delivered_append
      Let_def request_replay_delivered request_replay_events)

lemma session_spoken:
  "begun (rendered (session sid p \<sigma> pre e post)) @ speakQueue (session sid p \<sigma> pre e post) =
     begun (rendered p) @ speakQueue p @
     map aq_text
       (delivered sid (snd (run \<sigma> pre)) @
        (if redis_fail e = Some 0 then []
         else map replay_event
                (take 100 (newer (lastStreamId p) (questions (srv (fst (run \<sigma> pre))))))) @
        delivered sid (snd (run (fst (run \<sigma> pre)) post)))"
  by (simp add: session_def on_connect_def receive_spoken run_append delivered_append
      Let_def request_replay_delivered request_replay_events)

lemma run_submission:
  assumes "tasks \<sigma> = []"
  shows "run \<sigma> submission =
     (\<sigma>\<lparr>srv := state_of (followup_create envB ''r'' payloadA (srv \<sigma>)),
        tasks := [(''r'', payloadA, Inr (outcome_of (followup_create envB ''r'' payloadA (srv \<sigma>))))]\<rparr>,
      trace_of (followup_create envB ''r'' payloadA (srv \<sigma>)))"
  using arrive_and_run[of \<sigma> "''r''" payloadA envB] assms
  by (simp add: submission_def)

text \<open>
  C2, as stated, fails, in two ways. There is no gate: a participant that has seen the
  first entry of a three-entry log connects, a submission is handled before the
  server handles the replay request, and the participant is handed the new live event
  first and the replayed entries after it (the new entry once more among them). And the
  replay is not drained: a participant that connects with no last id to a log of 101
  entries is sent 100 of them, the live event of the next submission then reaches it,
  and the 101st entry has not been delivered.
\<close>

theorem replay_before_live_counterexample:
  "map aq_text (messages (session ''p'' participant1 sys3 submission envA [])) =
     [''Q2'', ''q2'', ''q3'', ''Q2''] \<and>
   id_lt (0, 0) (fst (log101 ! 100)) \<and>
   live_event envB server101
     \<in> set (messages (session ''p'' participant0 sys101 [] envA submission)) \<and>
   replay_event (log101 ! 100)
     \<notin> set (messages (session ''p'' participant0 sys101 [] envA submission))"
proof -
  have first: "map aq_text (messages (session ''p'' participant1 sys3 submission envA [])) =
     [''Q2'', ''q2'', ''q3'', ''Q2'']"
    by (simp add: session_messages run_submission sys3_def participant1_def participant0_def
        handler_defs envA_def envB_def payloadA_def log3_def appended_def newer_def)
  have len: "length log101 = 101"
    by (simp add: log101_def length_appended)
  have srt: "sorted_wrt id_lt (map fst log101)"
    by (simp add: log101_def sorted_appended)
  have q: "questions server101 = log101"
    by (simp add: server101_def)
  have pos: "id_lt (0, 0) (fst (log101 ! 100))"
  proof -
    have "log101 ! 100 \<in> set log101"
      using len by (intro nth_mem) simp
    then show ?thesis
      unfolding log101_def by (rule appended_positive)
  qed
  have out: "outcome_of (followup_create envB ''r'' payloadA server101) = Broadcast"
    by (simp add: handler_defs server101_def envB_def payloadA_def)
  have live: "delivered ''p'' (trace_of (followup_create envB ''r'' payloadA server101)) =
      [live_event envB server101]"
    using out by (simp add: followup_create_delivered_other)
  have new: "newer None log101 = log101"
    by (simp add: log101_def newer_None_appended)
  have msgs: "messages (session ''p'' participant0 sys101 [] envA submission) =
      map replay_event (take 100 log101) @ [live_event envB server101]"
    by (simp add: session_messages run_submission sys101_def live q new participant0_def
        envA_def take_map)
  have a: "replay_event (log101 ! 100) \<notin> set (map replay_event (take 100 log101))"
    using srt len by (intro sorted_nth_not_in_take) simp_all
  have b: "replay_event (log101 ! 100) \<noteq> live_event envB server101"
    using srt len q live_event_not_replayed[of server101 "log101 ! 100" envB] by simp
  from first pos a b show ?thesis
    unfolding msgs by simp
qed

text \<open>
  C2, amended. A reconnecting participant has no gate for live events: whatever reaches
  its socket from the connect on is handed to the playback queue in the order of
  arrival. Whatever moves the server makes before and after it handles the replay
  request, with the store reachable: the replay handler reads once and emits the first
  100 of the entries with an id greater than the declared one in log order and with
  nothing in between; they arrive after every event the server emitted between the
  connect and the replay, and before every event it emits after the replay. When
  nothing reached the socket in between and at most 100 entries are newer than the
  declared id, the id of the k-th entry (counted from 0), the participant receives
  exactly the entries after the k-th, in order, before any live event.
\<close>

theorem replay_then_live:
  assumes up: "redis_fail e \<noteq> Some 0"
  shows "messages (session sid p \<sigma> pre e post) =
           messages p @ delivered sid (snd (run \<sigma> pre)) @
           map replay_event
             (take 100 (newer (lastStreamId p) (questions (srv (fst (run \<sigma> pre)))))) @
           delivered sid (snd (run (fst (run \<sigma> pre)) post)) \<and>
         begun (rendered (session sid p \<sigma> pre e post)) @
         speakQueue (session sid p \<sigma> pre e post) =
           begun (rendered p) @ speakQueue p @
           map aq_text
             (delivered sid (snd (run \<sigma> pre)) @
              map replay_event
                (take 100 (newer (lastStreamId p) (questions (srv (fst (run \<sigma> pre)))))) @
              delivered sid (snd (run (fst (run \<sigma> pre)) post))) \<and>
         (delivered sid (snd (run \<sigma> pre)) = [] \<and>
          sorted_wrt id_lt (map fst (questions (srv (fst (run \<sigma> pre))))) \<and>
          k < length (questions (srv (fst (run \<sigma> pre)))) \<and>
          lastStreamId p = Some (fst (questions (srv (fst (run \<sigma> pre))) ! k)) \<and>
          length (questions (srv (fst (run \<sigma> pre)))) \<le> Suc k + 100 \<longrightarrow>
            messages (session sid p \<sigma> pre e post) =
              messages p @
              map replay_event (drop (Suc k) (questions (srv (fst (run \<sigma> pre))))) @
              delivered sid (snd (run (fst (run \<sigma> pre)) post)))"
proof -
  let ?Q = "questions (srv (fst (run \<sigma> pre)))"
  have a: "messages (session sid p \<sigma> pre e post) =
           messages p @ delivered sid (snd (run \<sigma> pre)) @
           map replay_event (take 100 (newer (lastStreamId p) ?Q)) @
           delivered sid (snd (run (fst (run \<sigma> pre)) post))"
    using up by (simp add: session_messages)
  have b: "begun (rendered (session sid p \<sigma> pre e post)) @
         speakQueue (session sid p \<sigma> pre e post) =
           begun (rendered p) @ speakQueue p @
           map aq_text
             (delivered sid (snd (run \<sigma> pre)) @
              map replay_event (take 100 (newer (lastStreamId p) ?Q)) @
              delivered sid (snd (run (fst (run \<sigma> pre)) post)))"
    using up session_spoken[of sid p \<sigma> pre e post] by simp
  have c: "messages (session sid p \<sigma> pre e post) =
              messages p @ map replay_event (drop (Suc k) ?Q) @
              delivered sid (snd (run (fst (run \<sigma> pre)) post))"
    if quiet: "delivered sid (snd (run \<sigma> pre)) = []"
      and srt: "sorted_wrt id_lt (map fst ?Q)" and k: "k < length ?Q"
      and l: "lastStreamId p = Some (fst (?Q ! k))"
      and n: "length ?Q \<le> Suc k + 100"
  proof -
    have "newer (lastStreamId p) ?Q = drop (Suc k) ?Q"
      using newer_nth[OF srt k] l by simp
    moreover have "take 100 (drop (Suc k) ?Q) = drop (Suc k) ?Q"
      using n by (intro take_all) simp
    ultimately show ?thesis
      using a quiet by simp
  qed
  from a b c show ?thesis by blast
qed

theorem replay_then_live_witness:
  "redis_fail envA \<noteq> Some 0 \<and>
   delivered ''p'' (snd (run sys3 [])) = [] \<and>
   sorted_wrt id_lt (map fst (questions (srv (fst (run sys3 []))))) \<and>
   0 < length (questions (srv (fst (run sys3 [])))) \<and>
   lastStreamId participant1 = Some (fst (questions (srv (fst (run sys3 []))) ! 0)) \<and>
   length (questions (srv (fst (run sys3 [])))) \<le> Suc 0 + 100 \<and>
   map aq_text (messages (session ''p'' participant1 sys3 [] envA submission)) =
     [''q2'', ''q3'', ''Q2'']"
proof -
  have 1: "redis_fail envA \<noteq> Some 0"
    by (simp add: envA_def)
  have 2: "delivered ''p'' (snd (run sys3 [])) = []"
    by simp
  have q: "questions (srv (fst (run sys3 []))) = appended log3"
    by (simp add: sys3_def)
  have 3: "sorted_wrt id_lt (map fst (questions (srv (fst (run sys3 [])))))"
    unfolding q by (rule sorted_appended)
  have 4: "length (questions (srv (fst (run sys3 [])))) = 3"
    unfolding q by (simp add: length_appended log3_def)
  have 5: "lastStreamId participant1 = Some (fst (questions (srv (fst (run sys3 []))) ! 0))"
    unfolding q by (simp add: participant1_def)
  have 6: "messages participant1 = []"
    by (simp add: participant1_def participant0_def)
  have 7: "map aq_text (map replay_event (drop (Suc 0) (appended log3))) = [''q2'', ''q3'']"
    by (simp add: log3_def appended_def xAdd_def last_id_def next_id_def replay_event_def
        Let_def)
  have 8: "map aq_text (delivered ''p'' (snd (run (fst (run sys3 [])) submission))) = [''Q2'']"
    by (simp add: run_submission sys3_def handler_defs envB_def payloadA_def)
  have k0: "0 < length (questions (srv (fst (run sys3 []))))"
    and n100: "length (questions (srv (fst (run sys3 [])))) \<le> Suc 0 + 100"
    using 4 by simp_all
  have "messages (session ''p'' participant1 sys3 [] envA submission) =
      messages participant1 @
      map replay_event (drop (Suc 0) (questions (srv (fst (run sys3 []))))) @
      delivered ''p'' (snd (run (fst (run sys3 [])) submission))"
    using replay_then_live[OF 1, where sid = "''p''" and p = participant1 and \<sigma> = sys3
        and pre = "[]" and post = submission and k = 0] 2 3 k0 5 n100
    by blast
  then have "map aq_text (messages (session ''p'' participant1 sys3 [] envA submission)) =
     [''q2'', ''q3'', ''Q2'']"
    using 6 7 8 q by simp
  with 1 2 3 4 5 show ?thesis by simp
qed

subsection \<open>Events with an id\<close>






lemma distinct_count_list:
  "distinct xs \<Longrightarrow> count_list xs x = (if x \<in> set xs then 1 else 0)"
  by (induction xs) auto

text \<open>
  C9, amended. The handler has no retry of its own: a run calls every Redis command
  and the generation backend at most once. When the \<^verbatim>\<open>xAdd\<close> call on the questions
  log throws, that append has been attempted once and is not attempted again: the step
  that throws ends the handler and leaves the state as it was, the requesting socket
  alone is sent the one apology event, and the log is unchanged; a handler that has
  ended is not resumed. Validation, rate-limit and dedupe rejections emit nothing and
  call no backend, and a backend call that throws ends the run in the \<^verbatim>\<open>catch\<close> block.
\<close>

theorem no_retry:
  "distinct (trace_of (followup_create e sid d s)) \<and>
   (redis_fail e = Some 5 \<longrightarrow>
      questions (state_of (followup_create e sid d s)) = questions s \<and>
      (Redis XADD_questions \<in> set (trace_of (followup_create e sid d s)) \<longrightarrow>
         outcome_of (followup_create e sid d s) = Caught \<and>
         events (trace_of (followup_create e sid d s)) = [apology e])) \<and>
   (outcome_of (followup_create e sid d s)
      \<in> {EmptyInput, TooManyItems, TooManyCharacters, RateLimited, Duplicate} \<longrightarrow>
      events (trace_of (followup_create e sid d s)) = [] \<and>
      OpenAI \<notin> set (trace_of (followup_create e sid d s))) \<and>
   (openai e = ApiError \<and> OpenAI \<in> set (trace_of (followup_create e sid d s)) \<longrightarrow>
      outcome_of (followup_create e sid d s) = Caught) \<and>
   count_list (trace_of (followup_create e sid d s)) (Redis c) \<le> 1 \<and>
   count_list (trace_of (followup_create e sid d s)) OpenAI \<le> 1 \<and>
   (redis_fail e = Some 5 \<and>
    Redis XADD_questions \<in> set (trace_of (followup_create e sid d s)) \<longrightarrow>
      count_list (trace_of (followup_create e sid d s)) (Redis XADD_questions) = 1 \<and>
      delivered sid (trace_of (followup_create e sid d s)) = [apology e] \<and>
      (\<forall>sid'. sid' \<noteq> sid \<longrightarrow> delivered sid' (trace_of (followup_create e sid d s)) = []) \<and>
      streamId (apology e) = None) \<and>
   (redis_fail e = Some 5 \<longrightarrow>
      advance e sid d (AwaitXAddQuestions t) s =
        (s, [Redis XADD_questions, ToSocket sid (apology e)], Inr Caught)) \<and>
   (i < length (tasks \<sigma>) \<and> tasks \<sigma> ! i = (sid, d, Inr out) \<longrightarrow>
      move_step \<sigma> (Resume i e) = (\<sigma>, []))"
proof -
  let ?r = "followup_create e sid d s"
  have dist: "distinct (trace_of ?r)"
    by (rule followup_create_distinct)
  have cnt: "count_list (trace_of ?r) x \<le> 1" for x
    using distinct_count_list[OF dist, of x] by simp
  have one: "count_list (trace_of ?r) x = 1" if "x \<in> set (trace_of ?r)" for x
    using distinct_count_list[OF dist, of x] that by simp
  have caught: "outcome_of ?r = Caught"
    if "redis_fail e = Some 5" and "Redis XADD_questions \<in> set (trace_of ?r)"
    using no_retry_facts[of e sid d s] that by blast
  have dl: "delivered sid (trace_of ?r) = [apology e] \<and>
      (\<forall>sid'. sid' \<noteq> sid \<longrightarrow> delivered sid' (trace_of ?r) = []) \<and>
      streamId (apology e) = None"
    if "redis_fail e = Some 5" and "Redis XADD_questions \<in> set (trace_of ?r)"
    using caught[OF that]
    by (simp add: followup_create_delivered_requester followup_create_events
        followup_create_delivered_other apology_def)
  have st: "advance e sid d (AwaitXAddQuestions t) s =
        (s, [Redis XADD_questions, ToSocket sid (apology e)], Inr Caught)"
    if "redis_fail e = Some 5"
    using that by simp
  have fin: "move_step \<sigma> (Resume i e) = (\<sigma>, [])"
    if "i < length (tasks \<sigma>)" and "tasks \<sigma> ! i = (sid, d, Inr out)"
    using that by simp
  from no_retry_facts[of e sid d s] cnt[of "Redis c"] cnt[of OpenAI]
    one[of "Redis XADD_questions"] dl st fin
  show ?thesis by blast
qed

theorem no_retry_witness:
  "redis_fail envFail = Some 5 \<and>
   Redis XADD_questions \<in> set (trace_of (followup_create envFail ''r'' payloadA server0)) \<and>
   count_list (trace_of (followup_create envFail ''r'' payloadA server0)) (Redis XADD_questions) = 1 \<and>
   outcome_of (followup_create envFail ''r'' payloadA server0) = Caught \<and>
   questions (state_of (followup_create envFail ''r'' payloadA server0)) = questions server0 \<and>
   delivered ''r'' (trace_of (followup_create envFail ''r'' payloadA server0)) = [apology envFail] \<and>
   delivered ''p'' (trace_of (followup_create envFail ''r'' payloadA server0)) = [] \<and>
   advance envFail ''r'' payloadA (AwaitXAddQuestions ''Q1'') server0 =
     (server0, [Redis XADD_questions, ToSocket ''r'' (apology envFail)], Inr Caught) \<and>
   move_step \<lparr>srv = server0, tasks = [(''r'', payloadA, Inr Caught)]\<rparr> (Resume 0 envFail) =
     (\<lparr>srv = server0, tasks = [(''r'', payloadA, Inr Caught)]\<rparr>, []) \<and>
   outcome_of (followup_create envA ''r'' payload9 server0)
      \<in> {EmptyInput, TooManyItems, TooManyCharacters, RateLimited, Duplicate} \<and>
   events (trace_of (followup_create envA ''r'' payload9 server0)) = [] \<and>
   openai envDown = ApiError \<and>
   OpenAI \<in> set (trace_of (followup_create envDown ''r'' payloadA server0)) \<and>
   outcome_of (followup_create envDown ''r'' payloadA server0) = Caught"
proof -
  let ?\<sigma> = "\<lparr>srv = server0, tasks = [(''r'', payloadA, Inr Caught)]\<rparr>"
  have 1: "redis_fail envFail = Some 5"
    by (simp add: envFail_def)
  have 2: "Redis XADD_questions \<in> set (trace_of (followup_create envFail ''r'' payloadA server0))"
    by (simp add: handler_defs envFail_def payloadA_def)
  have 3: "outcome_of (followup_create envA ''r'' payload9 server0)
      \<in> {EmptyInput, TooManyItems, TooManyCharacters, RateLimited, Duplicate}"
    by (simp add: outcome_validate validate_def payload9_def)
  have 4: "openai envDown = ApiError"
    by (simp add: envDown_def)
  have 5: "OpenAI \<in> set (trace_of (followup_create envDown ''r'' payloadA server0))"
    by (simp add: handler_defs envDown_def payloadA_def)
  have 6: "0 < length (tasks ?\<sigma>)" "tasks ?\<sigma> ! 0 = (''r'', payloadA, Inr Caught)"
    "''p'' \<noteq> ''r''"
    by simp_all
  note f = no_retry[where e = envFail and sid = "''r''" and d = payloadA and s = server0
      and t = "''Q1''" and \<sigma> = ?\<sigma> and i = 0 and out = Caught]
  have a: "count_list (trace_of (followup_create envFail ''r'' payloadA server0))
        (Redis XADD_questions) = 1 \<and>
      outcome_of (followup_create envFail ''r'' payloadA server0) = Caught \<and>
      questions (state_of (followup_create envFail ''r'' payloadA server0)) = questions server0 \<and>
      delivered ''r'' (trace_of (followup_create envFail ''r'' payloadA server0)) =
        [apology envFail] \<and>
      delivered ''p'' (trace_of (followup_create envFail ''r'' payloadA server0)) = [] \<and>
      advance envFail ''r'' payloadA (AwaitXAddQuestions ''Q1'') server0 =
        (server0, [Redis XADD_questions, ToSocket ''r'' (apology envFail)], Inr Caught) \<and>
      move_step ?\<sigma> (Resume 0 envFail) = (?\<sigma>, [])"
    using f 1 2 6 by simp
  have b: "events (trace_of (followup_create envA ''r'' payload9 server0)) = []"
    using no_retry[where e = envA and sid = "''r''" and d = payload9 and s = server0] 3
    by blast
  have c: "outcome_of (followup_create envDown ''r'' payloadA server0) = Caught"
    using no_retry[where e = envDown and sid = "''r''" and d = payloadA and s = server0] 4 5
    by blast
  from 1 2 3 4 5 a b c show ?thesis by blast
qed

subsection \<open>The window the code keeps\<close>

lemma serve_all_snoc: "serve_all s (rs @ [r]) = serve (serve_all s rs) r"
  by (simp add: serve_all_def)

lemma spaced_counter:
  "kvs (serve_all server0 (spaced (Suc n))) (RateKey ''r'') =
     Some (Suc n, Some (5000 * n + 60000))"
proof (induction n)
  case 0
  have v: "validate payloadB = None"
    by (simp add: validate_def payloadB_def)
  have "count_of 0 server0 ''r'' = 0"
    by (simp add: count_of_def kv_get_def live_def server0_def)
  then show ?case
    using followup_create_rate_own[of payloadB "at_time 0" "''r''" server0] v
    by (simp add: spaced_def serve_all_def at_time_def)
next
  case (Suc n)
  let ?s = "serve_all server0 (spaced (Suc n))"
  let ?e = "at_time (5000 * Suc n)"
  have v: "validate payloadB = None"
    by (simp add: validate_def payloadB_def)
  have sp: "spaced (Suc (Suc n)) = spaced (Suc n) @ [FollowUp ?e ''r'' payloadB]"
    by (simp add: spaced_def)
  have c: "count_of (now ?e) ?s ''r'' = Suc n"
    using Suc.IH by (simp add: count_of_def kv_get_def live_def at_time_def)
  have "kvs (state_of (followup_create ?e ''r'' payloadB ?s)) (RateKey ''r'') =
      Some (Suc (count_of (now ?e) ?s ''r''), Some (now ?e + 60000))"
    using v by (intro followup_create_rate_own) (simp_all add: at_time_def)
  then show ?case
    unfolding sp serve_all_snoc using c by (simp add: at_time_def)
qed

text \<open>
  C5 fails on the code at this input: ten submissions on one socket, five seconds
  apart from the time 0, and an eleventh at 100 seconds. The window that the first
  submission opened was over at 60 seconds, so the eleventh is the first submission of
  a fresh window and the claim accepts it. The code rejects it with \<open>RateLimited\<close>:
  \<^verbatim>\<open>expire\<close> runs on every call, the tenth call at 45 seconds moved the expiry of the
  counter to 105 seconds, and the eleventh call finds the count of 10 and makes it 11.
\<close>

theorem rate_window_rearmed:
  "now (at_time 0) + 60000 < now (at_time 100000) \<and>
   kvs (serve_all server0 (spaced 10)) (RateKey ''r'') = Some (10, Some 105000) \<and>
   count_of (now (at_time 100000)) (serve_all server0 (spaced 10)) ''r'' = 10 \<and>
   outcome_of (followup_create (at_time 100000) ''r'' payloadA (serve_all server0 (spaced 10))) =
     RateLimited"
proof -
  have k: "kvs (serve_all server0 (spaced 10)) (RateKey ''r'') = Some (10, Some 105000)"
    using spaced_counter[of 9] by simp
  then have c: "count_of (now (at_time 100000)) (serve_all server0 (spaced 10)) ''r'' = 10"
    by (simp add: count_of_def kv_get_def live_def at_time_def)
  have v: "validate payloadA = None"
    by (simp add: validate_def payloadA_def)
  have "outcome_of (followup_create (at_time 100000) ''r'' payloadA
      (serve_all server0 (spaced 10))) = RateLimited"
    using outcome_RateLimited[of payloadA "at_time 100000" "''r''" "serve_all server0 (spaced 10)"]
      v c
    by (simp add: at_time_def)
  with k c show ?thesis
    by (simp add: at_time_def)
qed

subsection \<open>Dedupe marks with handlers in flight\<close>

lemma advance_get:
  assumes "redis_fail e \<noteq> Some 2"
  shows "advance e sid d AwaitGet s =
     (s, [Redis GET],
      if kv_get (now e) (kvs s) (DedupKey (items d)) = None then Inl AwaitSet
      else Inr Duplicate)"
  using assms by (auto split: option.splits)

lemma advance_set:
  assumes "redis_fail e \<noteq> Some 3"
  shows "advance e sid d AwaitSet s =
     (s\<lparr>kvs := (kvs s)(DedupKey (items d) \<mapsto> (1, Some (now e + 300000)))\<rparr>,
      [Redis SET], Inl AwaitXAddFollowups)"
  using assms by (simp add: set_ex_def)

lemma advance_mark:
  "kvs (fst (advance e sid d p s)) (DedupKey its) =
     (if p = AwaitSet \<and> items d = its \<and> redis_fail e \<noteq> Some 3
      then Some (1, Some (now e + 300000)) else kvs s (DedupKey its))"
  by (cases p)
    (auto simp: incr_def expire_def set_ex_def Let_def case_prod_beta
      split: option.splits completion.splits prod.splits)

lemma move_step_mark:
  assumes "kvs (srv \<sigma>) (DedupKey its) = Some (v, Some x)" and "t + 300000 \<le> x"
    and "not_before t m"
  shows "\<exists>v' x'. kvs (srv (fst (move_step \<sigma> m))) (DedupKey its) = Some (v', Some x') \<and>
           t + 300000 \<le> x'"
proof (cases m)
  case (Arrive sid d)
  with assms show ?thesis by simp
next
  case (Resume i e)
  with assms(3) have t: "t \<le> now e"
    by (simp add: not_before_def)
  show ?thesis
  proof (cases "i < length (tasks \<sigma>)")
    case False
    with Resume assms show ?thesis by simp
  next
    case True
    obtain sid d w where task: "tasks \<sigma> ! i = (sid, d, w)"
      by (cases "tasks \<sigma> ! i")
    show ?thesis
    proof (cases w)
      case (Inr out)
      with Resume True task assms show ?thesis by simp
    next
      case (Inl p)
      have "srv (fst (move_step \<sigma> m)) = fst (advance e sid d p (srv \<sigma>))"
        using Resume True task Inl by (simp add: Let_def)
      with assms(1,2) t show ?thesis
        by (simp add: advance_mark)
    qed
  qed
next
  case (ReplayRequest e sid l)
  with assms show ?thesis by simp
qed

lemma run_mark:
  assumes "kvs (srv \<sigma>) (DedupKey its) = Some (v, Some x)" and "t + 300000 \<le> x"
    and "\<forall>m \<in> set ms. not_before t m"
  shows "\<exists>v' x'. kvs (srv (fst (run \<sigma> ms))) (DedupKey its) = Some (v', Some x') \<and>
           t + 300000 \<le> x'"
  using assms
proof (induction ms arbitrary: \<sigma> v x)
  case Nil
  then show ?case by simp
next
  case (Cons m ms)
  from Cons.prems have "not_before t m" and rest: "\<forall>m \<in> set ms. not_before t m"
    by simp_all
  from move_step_mark[OF Cons.prems(1,2) this(1)] obtain v' x'
    where "kvs (srv (fst (move_step \<sigma> m))) (DedupKey its) = Some (v', Some x')"
      and "t + 300000 \<le> x'"
    by blast
  from Cons.IH[OF this rest] show ?case
    by (simp add: Let_def)
qed

lemma second_read_within:
  assumes mark: "kvs (srv \<sigma>) (DedupKey (items d)) = Some (1, Some (t + 300000))"
    and later: "\<forall>m \<in> set ms. not_before t m"
    and same: "items d2 = items d" and up: "redis_fail e2 \<noteq> Some 2"
    and within: "now e2 < t + 300000"
  shows "snd (snd (advance e2 sid2 d2 AwaitGet (srv (fst (run \<sigma> ms))))) = Inr Duplicate"
proof -
  obtain v' x' where
    m: "kvs (srv (fst (run \<sigma> ms))) (DedupKey (items d)) = Some (v', Some x')"
    and x: "t + 300000 \<le> x'"
    using run_mark[OF mark _ later] by auto
  have "kv_get (now e2) (kvs (srv (fst (run \<sigma> ms)))) (DedupKey (items d)) = Some v'"
    using m x within by (simp add: kv_get_def live_def)
  then show ?thesis
    using up by (simp add: advance_get same)
qed

lemma second_read_after:
  assumes mark: "kvs (srv \<sigma>) (DedupKey (items d)) = Some (1, Some (t + 300000))"
    and kept: "kvs (srv (fst (run \<sigma> ms))) (DedupKey (items d)) = kvs (srv \<sigma>) (DedupKey (items d))"
    and same: "items d2 = items d" and up: "redis_fail e2 \<noteq> Some 2"
    and after: "t + 300000 < now e2"
  shows "snd (snd (advance e2 sid2 d2 AwaitGet (srv (fst (run \<sigma> ms))))) = Inl AwaitSet"
proof -
  have "kv_get (now e2) (kvs (srv (fst (run \<sigma> ms)))) (DedupKey (items d)) = None"
    using mark kept after by (simp add: kv_get_def live_def)
  then show ?thesis
    using up by (simp add: advance_get same)
qed

lemma both_reads_first:
  assumes i: "i < length (tasks \<sigma>)" and j: "j < length (tasks \<sigma>)" and ij: "i \<noteq> j"
    and ti: "tasks \<sigma> ! i = (sid1, d1, Inl AwaitGet)"
    and tj: "tasks \<sigma> ! j = (sid2, d2, Inl AwaitGet)"
    and up: "redis_fail e1 \<noteq> Some 2" "redis_fail e2 \<noteq> Some 2"
    and none: "kv_get (now e1) (kvs (srv \<sigma>)) (DedupKey (items d1)) = None"
      "kv_get (now e2) (kvs (srv \<sigma>)) (DedupKey (items d2)) = None"
  shows "tasks (fst (run \<sigma> [Resume i e1, Resume j e2])) ! i = (sid1, d1, Inl AwaitSet) \<and>
         tasks (fst (run \<sigma> [Resume i e1, Resume j e2])) ! j = (sid2, d2, Inl AwaitSet) \<and>
         srv (fst (run \<sigma> [Resume i e1, Resume j e2])) = srv \<sigma>"
  using assms by (simp add: Let_def advance_get del: advance.simps)

lemma finish_after_read:
  assumes "redis_fail e = None" and "openai e = Content c"
  shows "snd (snd (finish e sid d AwaitSet s)) = Broadcast \<and>
         length (events (fst (snd (finish e sid d AwaitSet s)))) = 1"
  using assms
  by (simp add: finish.simps[of _ _ _ AwaitSet] finish.simps[of _ _ _ AwaitXAddFollowups]
      finish.simps[of _ _ _ AwaitOpenAI]
      finish.simps[of _ _ _ "AwaitXAddQuestions _"] finish.simps[of _ _ _ "AwaitPublish _ _"]
      Let_def case_prod_beta)

lemma both_broadcast:
  assumes i: "i < length (tasks \<sigma>)" and j: "j < length (tasks \<sigma>)" and ij: "i \<noteq> j"
    and ti: "tasks \<sigma> ! i = (sid1, d1, Inl AwaitGet)"
    and tj: "tasks \<sigma> ! j = (sid2, d2, Inl AwaitGet)"
    and up: "redis_fail e1 = None" "redis_fail e2 = None"
    and ai: "openai e1 = Content c1" "openai e2 = Content c2"
    and none: "kv_get (now e1) (kvs (srv \<sigma>)) (DedupKey (items d1)) = None"
      "kv_get (now e2) (kvs (srv \<sigma>)) (DedupKey (items d2)) = None"
  shows "tasks (fst (run \<sigma> ([Resume i e1, Resume j e2] @
            replicate 5 (Resume i e1) @ replicate 5 (Resume j e2)))) ! i = (sid1, d1, Inr Broadcast) \<and>
         tasks (fst (run \<sigma> ([Resume i e1, Resume j e2] @
            replicate 5 (Resume i e1) @ replicate 5 (Resume j e2)))) ! j = (sid2, d2, Inr Broadcast) \<and>
         length (events (snd (run \<sigma> ([Resume i e1, Resume j e2] @
            replicate 5 (Resume i e1) @ replicate 5 (Resume j e2))))) = 2"
proof -
  let ?r1 = "run \<sigma> [Resume i e1, Resume j e2]"
  let ?\<sigma>1 = "fst ?r1"
  have reads: "tasks ?\<sigma>1 ! i = (sid1, d1, Inl AwaitSet)" "tasks ?\<sigma>1 ! j = (sid2, d2, Inl AwaitSet)"
    using both_reads_first[OF i j ij ti tj _ _ none] up by simp_all
  have len1: "length (tasks ?\<sigma>1) = length (tasks \<sigma>)"
    using i j ij ti tj by (simp add: Let_def del: advance.simps)
  have tr1: "events (snd ?r1) = []"
    using i j ij ti tj up none by (simp add: Let_def advance_get del: advance.simps)
  let ?f1 = "finish e1 sid1 d1 AwaitSet (srv ?\<sigma>1)"
  let ?r2 = "run ?\<sigma>1 (replicate 5 (Resume i e1))"
  let ?\<sigma>2 = "fst ?r2"
  have r2: "?r2 = (?\<sigma>1\<lparr>srv := fst ?f1,
        tasks := (tasks ?\<sigma>1)[i := (sid1, d1, Inr (snd (snd ?f1)))]\<rparr>, fst (snd ?f1))"
    using i len1 reads(1) by (intro run_solo) simp_all
  have t2i: "tasks ?\<sigma>2 ! i = (sid1, d1, Inr Broadcast)"
    and t2j: "tasks ?\<sigma>2 ! j = (sid2, d2, Inl AwaitSet)"
    and len2: "length (tasks ?\<sigma>2) = length (tasks \<sigma>)"
    and tr2: "length (events (snd ?r2)) = 1"
    using i j ij len1 reads finish_after_read[OF up(1) ai(1), of sid1 d1 "srv ?\<sigma>1"]
    by (simp_all add: r2 del: run.simps)
  let ?f2 = "finish e2 sid2 d2 AwaitSet (srv ?\<sigma>2)"
  let ?r3 = "run ?\<sigma>2 (replicate 5 (Resume j e2))"
  have r3: "?r3 = (?\<sigma>2\<lparr>srv := fst ?f2,
        tasks := (tasks ?\<sigma>2)[j := (sid2, d2, Inr (snd (snd ?f2)))]\<rparr>, fst (snd ?f2))"
    using j len2 t2j by (intro run_solo) simp_all
  have t3i: "tasks (fst ?r3) ! i = (sid1, d1, Inr Broadcast)"
    and t3j: "tasks (fst ?r3) ! j = (sid2, d2, Inr Broadcast)"
    and tr3: "length (events (snd ?r3)) = 1"
    using i j ij len2 t2i finish_after_read[OF up(2) ai(2), of sid2 d2 "srv ?\<sigma>2"]
    by (simp_all add: r3 del: run.simps)
  have whole: "run \<sigma> ([Resume i e1, Resume j e2] @
            replicate 5 (Resume i e1) @ replicate 5 (Resume j e2)) =
      (fst ?r3, snd ?r1 @ snd ?r2 @ snd ?r3)"
    by (simp only: run_append fst_conv snd_conv)
  show ?thesis
    using t3i t3j tr1 tr2 tr3 by (simp only: whole fst_conv snd_conv events_append) simp
qed

text \<open>
  C6, amended. A submission that passes the shape checks and the rate limit is
  rejected with \<open>Duplicate\<close> exactly when, at the moment its handler reads the mark, a
  live mark exists for its item list; otherwise the handler then sets a mark that
  expires 300 seconds later, and a rejected duplicate leaves the mark as it is. So of
  two submissions with the same item list, when the second reads the mark after the
  first has set it: the second is rejected with \<open>Duplicate\<close> if it reads within 300
  seconds of that, whatever other handlers do in between, and is not if it reads after
  the 300 seconds and the mark was not set again. The read and the set are two commands
  with an \<^verbatim>\<open>await\<close> between them: when both handlers read before either sets, both
  pass the check and both submissions are broadcast.
\<close>

theorem deduplication:
  "(validate d = None \<and> redis_fail e = None \<and> Suc (count_of (now e) s sid) \<le> 10 \<longrightarrow>
      (outcome_of (followup_create e sid d s) = Duplicate \<longleftrightarrow>
         kv_get (now e) (kvs s) (DedupKey (items d)) \<noteq> None) \<and>
      (outcome_of (followup_create e sid d s) \<noteq> Duplicate \<longrightarrow>
         kvs (state_of (followup_create e sid d s)) (DedupKey (items d)) =
           Some (1, Some (now e + 300000))) \<and>
      (outcome_of (followup_create e sid d s) = Duplicate \<longrightarrow>
         kvs (state_of (followup_create e sid d s)) (DedupKey (items d)) =
           kvs s (DedupKey (items d)))) \<and>
   (redis_fail e \<noteq> Some 2 \<longrightarrow>
      advance e sid d AwaitGet s =
        (s, [Redis GET],
         if kv_get (now e) (kvs s) (DedupKey (items d)) = None then Inl AwaitSet
         else Inr Duplicate)) \<and>
   (redis_fail e \<noteq> Some 3 \<longrightarrow>
      advance e sid d AwaitSet s =
        (s\<lparr>kvs := (kvs s)(DedupKey (items d) \<mapsto> (1, Some (now e + 300000)))\<rparr>,
         [Redis SET], Inl AwaitXAddFollowups)) \<and>
   (kvs (srv \<sigma>) (DedupKey (items d)) = Some (1, Some (t + 300000)) \<and>
    (\<forall>m \<in> set ms. not_before t m) \<and>
    items d' = items d \<and> redis_fail e' \<noteq> Some 2 \<and> now e' < t + 300000 \<longrightarrow>
      snd (snd (advance e' sid' d' AwaitGet (srv (fst (run \<sigma> ms))))) = Inr Duplicate) \<and>
   (kvs (srv \<sigma>) (DedupKey (items d)) = Some (1, Some (t + 300000)) \<and>
    kvs (srv (fst (run \<sigma> ms))) (DedupKey (items d)) = kvs (srv \<sigma>) (DedupKey (items d)) \<and>
    items d' = items d \<and> redis_fail e' \<noteq> Some 2 \<and> t + 300000 < now e' \<longrightarrow>
      snd (snd (advance e' sid' d' AwaitGet (srv (fst (run \<sigma> ms))))) = Inl AwaitSet) \<and>
   (i < length (tasks \<sigma>) \<and> j < length (tasks \<sigma>) \<and> i \<noteq> j \<and>
    tasks \<sigma> ! i = (sid, d, Inl AwaitGet) \<and> tasks \<sigma> ! j = (sid', d', Inl AwaitGet) \<and>
    redis_fail e = None \<and> redis_fail e' = None \<and>
    openai e = Content c \<and> openai e' = Content c' \<and>
    kv_get (now e) (kvs (srv \<sigma>)) (DedupKey (items d)) = None \<and>
    kv_get (now e') (kvs (srv \<sigma>)) (DedupKey (items d')) = None \<longrightarrow>
      tasks (fst (run \<sigma> [Resume i e, Resume j e'])) ! i = (sid, d, Inl AwaitSet) \<and>
      tasks (fst (run \<sigma> [Resume i e, Resume j e'])) ! j = (sid', d', Inl AwaitSet) \<and>
      tasks (fst (run \<sigma> ([Resume i e, Resume j e'] @
          replicate 5 (Resume i e) @ replicate 5 (Resume j e')))) ! i =
        (sid, d, Inr Broadcast) \<and>
      tasks (fst (run \<sigma> ([Resume i e, Resume j e'] @
          replicate 5 (Resume i e) @ replicate 5 (Resume j e')))) ! j =
        (sid', d', Inr Broadcast) \<and>
      length (events (snd (run \<sigma> ([Resume i e, Resume j e'] @
          replicate 5 (Resume i e) @ replicate 5 (Resume j e'))))) = 2)"
proof -
  have solo: "(outcome_of (followup_create e sid d s) = Duplicate \<longleftrightarrow>
         kv_get (now e) (kvs s) (DedupKey (items d)) \<noteq> None) \<and>
      (outcome_of (followup_create e sid d s) \<noteq> Duplicate \<longrightarrow>
         kvs (state_of (followup_create e sid d s)) (DedupKey (items d)) =
           Some (1, Some (now e + 300000))) \<and>
      (outcome_of (followup_create e sid d s) = Duplicate \<longrightarrow>
         kvs (state_of (followup_create e sid d s)) (DedupKey (items d)) =
           kvs s (DedupKey (items d)))"
    if v: "validate d = None" and up: "redis_fail e = None"
      and rate: "Suc (count_of (now e) s sid) \<le> 10"
    using outcome_Duplicate[OF v up rate] mark_created[OF v up rate] mark_kept[OF v up rate]
    by blast
  have get: "advance e sid d AwaitGet s =
        (s, [Redis GET],
         if kv_get (now e) (kvs s) (DedupKey (items d)) = None then Inl AwaitSet
         else Inr Duplicate)"
    if "redis_fail e \<noteq> Some 2"
    using that by (rule advance_get)
  have set: "advance e sid d AwaitSet s =
        (s\<lparr>kvs := (kvs s)(DedupKey (items d) \<mapsto> (1, Some (now e + 300000)))\<rparr>,
         [Redis SET], Inl AwaitXAddFollowups)"
    if "redis_fail e \<noteq> Some 3"
    using that by (rule advance_set)
  have within: "snd (snd (advance e' sid' d' AwaitGet (srv (fst (run \<sigma> ms))))) = Inr Duplicate"
    if "kvs (srv \<sigma>) (DedupKey (items d)) = Some (1, Some (t + 300000))"
      and "\<forall>m \<in> set ms. not_before t m"
      and "items d' = items d" and "redis_fail e' \<noteq> Some 2" and "now e' < t + 300000"
    using that by (rule second_read_within)
  have after: "snd (snd (advance e' sid' d' AwaitGet (srv (fst (run \<sigma> ms))))) = Inl AwaitSet"
    if "kvs (srv \<sigma>) (DedupKey (items d)) = Some (1, Some (t + 300000))"
      and "kvs (srv (fst (run \<sigma> ms))) (DedupKey (items d)) = kvs (srv \<sigma>) (DedupKey (items d))"
      and "items d' = items d" and "redis_fail e' \<noteq> Some 2" and "t + 300000 < now e'"
    using that by (rule second_read_after)
  have race: "tasks (fst (run \<sigma> [Resume i e, Resume j e'])) ! i = (sid, d, Inl AwaitSet) \<and>
      tasks (fst (run \<sigma> [Resume i e, Resume j e'])) ! j = (sid', d', Inl AwaitSet) \<and>
      tasks (fst (run \<sigma> ([Resume i e, Resume j e'] @
          replicate 5 (Resume i e) @ replicate 5 (Resume j e')))) ! i =
        (sid, d, Inr Broadcast) \<and>
      tasks (fst (run \<sigma> ([Resume i e, Resume j e'] @
          replicate 5 (Resume i e) @ replicate 5 (Resume j e')))) ! j =
        (sid', d', Inr Broadcast) \<and>
      length (events (snd (run \<sigma> ([Resume i e, Resume j e'] @
          replicate 5 (Resume i e) @ replicate 5 (Resume j e'))))) = 2"
    if i: "i < length (tasks \<sigma>)" and j: "j < length (tasks \<sigma>)" and ij: "i \<noteq> j"
      and ti: "tasks \<sigma> ! i = (sid, d, Inl AwaitGet)"
      and tj: "tasks \<sigma> ! j = (sid', d', Inl AwaitGet)"
      and up: "redis_fail e = None" "redis_fail e' = None"
      and ai: "openai e = Content c" "openai e' = Content c'"
      and none: "kv_get (now e) (kvs (srv \<sigma>)) (DedupKey (items d)) = None"
        "kv_get (now e') (kvs (srv \<sigma>)) (DedupKey (items d')) = None"
  proof -
    have "redis_fail e \<noteq> Some 2" and "redis_fail e' \<noteq> Some 2"
      using up by simp_all
    from both_reads_first[OF i j ij ti tj this none] both_broadcast[OF i j ij ti tj up ai none]
    show ?thesis
      by blast
  qed
  show ?thesis
  proof (intro conjI impI)
    assume "validate d = None \<and> redis_fail e = None \<and> Suc (count_of (now e) s sid) \<le> 10"
    then have h: "validate d = None" "redis_fail e = None" "Suc (count_of (now e) s sid) \<le> 10"
      by simp_all
    from solo[OF h] show "outcome_of (followup_create e sid d s) = Duplicate \<longleftrightarrow>
         kv_get (now e) (kvs s) (DedupKey (items d)) \<noteq> None"
      by blast
    {
      assume "outcome_of (followup_create e sid d s) \<noteq> Duplicate"
      with solo[OF h] show "kvs (state_of (followup_create e sid d s)) (DedupKey (items d)) =
           Some (1, Some (now e + 300000))"
        by blast
    }
    {
      assume "outcome_of (followup_create e sid d s) = Duplicate"
      with solo[OF h] show "kvs (state_of (followup_create e sid d s)) (DedupKey (items d)) =
           kvs s (DedupKey (items d))"
        by blast
    }
  next
    assume "redis_fail e \<noteq> Some 2"
    then show "advance e sid d AwaitGet s =
        (s, [Redis GET],
         if kv_get (now e) (kvs s) (DedupKey (items d)) = None then Inl AwaitSet
         else Inr Duplicate)"
      by (rule get)
  next
    assume "redis_fail e \<noteq> Some 3"
    then show "advance e sid d AwaitSet s =
        (s\<lparr>kvs := (kvs s)(DedupKey (items d) \<mapsto> (1, Some (now e + 300000)))\<rparr>,
         [Redis SET], Inl AwaitXAddFollowups)"
      by (rule set)
  next
    assume "kvs (srv \<sigma>) (DedupKey (items d)) = Some (1, Some (t + 300000)) \<and>
      (\<forall>m \<in> set ms. not_before t m) \<and>
      items d' = items d \<and> redis_fail e' \<noteq> Some 2 \<and> now e' < t + 300000"
    then show "snd (snd (advance e' sid' d' AwaitGet (srv (fst (run \<sigma> ms))))) = Inr Duplicate"
      using within by blast
  next
    assume "kvs (srv \<sigma>) (DedupKey (items d)) = Some (1, Some (t + 300000)) \<and>
      kvs (srv (fst (run \<sigma> ms))) (DedupKey (items d)) = kvs (srv \<sigma>) (DedupKey (items d)) \<and>
      items d' = items d \<and> redis_fail e' \<noteq> Some 2 \<and> t + 300000 < now e'"
    then show "snd (snd (advance e' sid' d' AwaitGet (srv (fst (run \<sigma> ms))))) = Inl AwaitSet"
      using after by blast
  next
    assume "i < length (tasks \<sigma>) \<and> j < length (tasks \<sigma>) \<and> i \<noteq> j \<and>
      tasks \<sigma> ! i = (sid, d, Inl AwaitGet) \<and> tasks \<sigma> ! j = (sid', d', Inl AwaitGet) \<and>
      redis_fail e = None \<and> redis_fail e' = None \<and>
      openai e = Content c \<and> openai e' = Content c' \<and>
      kv_get (now e) (kvs (srv \<sigma>)) (DedupKey (items d)) = None \<and>
      kv_get (now e') (kvs (srv \<sigma>)) (DedupKey (items d')) = None"
    then have r: "tasks (fst (run \<sigma> [Resume i e, Resume j e'])) ! i = (sid, d, Inl AwaitSet) \<and>
      tasks (fst (run \<sigma> [Resume i e, Resume j e'])) ! j = (sid', d', Inl AwaitSet) \<and>
      tasks (fst (run \<sigma> ([Resume i e, Resume j e'] @
          replicate 5 (Resume i e) @ replicate 5 (Resume j e')))) ! i =
        (sid, d, Inr Broadcast) \<and>
      tasks (fst (run \<sigma> ([Resume i e, Resume j e'] @
          replicate 5 (Resume i e) @ replicate 5 (Resume j e')))) ! j =
        (sid', d', Inr Broadcast) \<and>
      length (events (snd (run \<sigma> ([Resume i e, Resume j e'] @
          replicate 5 (Resume i e) @ replicate 5 (Resume j e'))))) = 2"
      using race by blast
    from r show "tasks (fst (run \<sigma> [Resume i e, Resume j e'])) ! i = (sid, d, Inl AwaitSet)"
      by blast
    from r show "tasks (fst (run \<sigma> [Resume i e, Resume j e'])) ! j = (sid', d', Inl AwaitSet)"
      by blast
    from r show "tasks (fst (run \<sigma> ([Resume i e, Resume j e'] @
          replicate 5 (Resume i e) @ replicate 5 (Resume j e')))) ! i =
        (sid, d, Inr Broadcast)"
      by blast
    from r show "tasks (fst (run \<sigma> ([Resume i e, Resume j e'] @
          replicate 5 (Resume i e) @ replicate 5 (Resume j e')))) ! j =
        (sid', d', Inr Broadcast)"
      by blast
    from r show "length (events (snd (run \<sigma> ([Resume i e, Resume j e'] @
          replicate 5 (Resume i e) @ replicate 5 (Resume j e'))))) = 2"
      by blast
  qed
qed

lemma arrived_state:
  "tasks (fst (run sys0 arrived)) = [(''r'', payloadA, Inl AwaitGet), (''a'', payloadA, Inl AwaitGet)] \<and>
   kvs (srv (fst (run sys0 arrived))) (DedupKey (items payloadA)) = None"
  by (simp add: sys0_def arrived_def validate_def incr_def expire_def live_def server0_def
      envA_def envB_def payloadA_def Let_def)

lemma marked_state:
  "advance envA ''r'' payloadA AwaitSet server0 = (srv marked, [Redis SET], Inl AwaitXAddFollowups) \<and>
   kvs (srv marked) (DedupKey (items payloadA)) = Some (1, Some (1000 + 300000)) \<and>
   tasks marked = []"
  by (simp add: marked_def envA_def set_ex_def)

lemma other_submission_kept:
  "kvs (srv (fst (run marked other_submission))) (DedupKey (items payloadA)) =
     kvs (srv marked) (DedupKey (items payloadA))"
proof -
  have "tasks marked = []"
    by (simp add: marked_def)
  then have "run marked other_submission =
     (marked\<lparr>srv := state_of (followup_create envB ''a'' payloadB (srv marked)),
        tasks := tasks marked @ [(''a'', payloadB, Inr (outcome_of (followup_create envB ''a'' payloadB (srv marked))))]\<rparr>,
      trace_of (followup_create envB ''a'' payloadB (srv marked)))"
    using arrive_and_run[of marked "''a''" payloadB envB] by (simp add: other_submission_def)
  moreover have "\<not> submits (items payloadA) (FollowUp envB ''a'' payloadB)"
    by (simp add: payloadA_def payloadB_def)
  ultimately show ?thesis
    using serve_mark_other[of "items payloadA" "FollowUp envB ''a'' payloadB" "srv marked"]
    by simp
qed

lemma other_submission_later: "list_all (not_before 1000) other_submission"
  by (simp add: list_all_iff other_submission_def not_before_def envB_def)

lemma first_solo:
  "validate payloadA = None \<and> redis_fail envA = None \<and>
   Suc (count_of (now envA) server0 ''r'') \<le> 10 \<and>
   kv_get (now envA) (kvs server0) (DedupKey (items payloadA)) = None \<and> now envA = 1000"
  by (simp add: handler_defs envA_def payloadA_def)

theorem deduplication_witness:
  "validate payloadA = None \<and> redis_fail envA = None \<and>
   Suc (count_of (now envA) server0 ''r'') \<le> 10 \<and>
   outcome_of (followup_create envA ''r'' payloadA server0) \<noteq> Duplicate \<and>
   kvs (state_of (followup_create envA ''r'' payloadA server0)) (DedupKey (items payloadA)) =
     Some (1, Some (1000 + 300000)) \<and>
   advance envA ''r'' payloadA AwaitSet server0 =
     (srv marked, [Redis SET], Inl AwaitXAddFollowups) \<and>
   kvs (srv marked) (DedupKey (items payloadA)) = Some (1, Some (1000 + 300000)) \<and>
   list_all (not_before 1000) other_submission \<and>
   snd (snd (advance envB ''a'' payloadA AwaitGet (srv (fst (run marked other_submission))))) =
     Inr Duplicate \<and>
   snd (snd (advance envLater ''a'' payloadA AwaitGet
     (srv (fst (run marked other_submission))))) = Inl AwaitSet \<and>
   tasks (fst (run sys0 arrived)) =
     [(''r'', payloadA, Inl AwaitGet), (''a'', payloadA, Inl AwaitGet)] \<and>
   tasks (fst (run sys0 overlapping)) ! 0 = (''r'', payloadA, Inr Broadcast) \<and>
   tasks (fst (run sys0 overlapping)) ! 1 = (''a'', payloadA, Inr Broadcast)"
proof -
  note m = marked_state
  note a = arrived_state
  note f = first_solo
  have later: "\<forall>m \<in> set other_submission. not_before 1000 m"
    using other_submission_later by (simp add: list_all_iff)
  have hyp1: "validate payloadA = None \<and> redis_fail envA = None \<and>
      Suc (count_of (now envA) server0 ''r'') \<le> 10"
    using f by blast
  have none: "kv_get (now envA) (kvs server0) (DedupKey (items payloadA)) = None"
    and now: "now envA = 1000"
    using f by blast+
  note solo = deduplication[where d = payloadA and e = envA and s = server0 and sid = "''r''",
      THEN conjunct1, THEN mp, OF hyp1]
  have o: "outcome_of (followup_create envA ''r'' payloadA server0) \<noteq> Duplicate"
    using solo none by blast
  then have k: "kvs (state_of (followup_create envA ''r'' payloadA server0))
      (DedupKey (items payloadA)) = Some (1, Some (1000 + 300000))"
    using solo now by simp
  have hyp4: "kvs (srv marked) (DedupKey (items payloadA)) = Some (1, Some (1000 + 300000)) \<and>
      (\<forall>m \<in> set other_submission. not_before 1000 m) \<and>
      items payloadA = items payloadA \<and> redis_fail envB \<noteq> Some 2 \<and> now envB < 1000 + 300000"
    using m later by (simp add: envB_def)
  note within = deduplication[where d = payloadA and \<sigma> = marked and t = 1000
        and ms = other_submission and d' = payloadA and e' = envB and sid' = "''a''",
      THEN conjunct2, THEN conjunct2, THEN conjunct2, THEN conjunct1, THEN mp, OF hyp4]
  have hyp5: "kvs (srv marked) (DedupKey (items payloadA)) = Some (1, Some (1000 + 300000)) \<and>
      kvs (srv (fst (run marked other_submission))) (DedupKey (items payloadA)) =
        kvs (srv marked) (DedupKey (items payloadA)) \<and>
      items payloadA = items payloadA \<and> redis_fail envLater \<noteq> Some 2 \<and>
      1000 + 300000 < now envLater"
    using m other_submission_kept by (simp add: envLater_def)
  note after = deduplication[where d = payloadA and \<sigma> = marked and t = 1000
        and ms = other_submission and d' = payloadA and e' = envLater and sid' = "''a''",
      THEN conjunct2, THEN conjunct2, THEN conjunct2, THEN conjunct2, THEN conjunct1,
      THEN mp, OF hyp5]
  have hyp6: "0 < length (tasks (fst (run sys0 arrived))) \<and>
      1 < length (tasks (fst (run sys0 arrived))) \<and> (0::nat) \<noteq> 1 \<and>
      tasks (fst (run sys0 arrived)) ! 0 = (''r'', payloadA, Inl AwaitGet) \<and>
      tasks (fst (run sys0 arrived)) ! 1 = (''a'', payloadA, Inl AwaitGet) \<and>
      redis_fail envA = None \<and> redis_fail envB = None \<and>
      openai envA = Content (Some ''Q1'') \<and> openai envB = Content (Some ''Q2'') \<and>
      kv_get (now envA) (kvs (srv (fst (run sys0 arrived)))) (DedupKey (items payloadA)) = None \<and>
      kv_get (now envB) (kvs (srv (fst (run sys0 arrived)))) (DedupKey (items payloadA)) = None"
    using a by (simp add: envA_def envB_def kv_get_def live_def)
  note race = deduplication[where \<sigma> = "fst (run sys0 arrived)" and i = 0 and j = 1
        and sid = "''r''" and sid' = "''a''" and d = payloadA and d' = payloadA
        and e = envA and e' = envB and c = "Some ''Q1''" and c' = "Some ''Q2''",
      THEN conjunct2, THEN conjunct2, THEN conjunct2, THEN conjunct2, THEN conjunct2,
      THEN mp, OF hyp6]
  have whole: "fst (run sys0 overlapping) =
      fst (run (fst (run sys0 arrived)) ([Resume 0 envA, Resume 1 envB] @
        replicate 5 (Resume 0 envA) @ replicate 5 (Resume 1 envB)))"
    unfolding overlapping_def by (simp only: run_append fst_conv)
  have r0: "tasks (fst (run sys0 overlapping)) ! 0 = (''r'', payloadA, Inr Broadcast)"
    and r1: "tasks (fst (run sys0 overlapping)) ! 1 = (''a'', payloadA, Inr Broadcast)"
    unfolding whole using race by blast+
  have m1: "advance envA ''r'' payloadA AwaitSet server0 =
     (srv marked, [Redis SET], Inl AwaitXAddFollowups)"
    and m2: "kvs (srv marked) (DedupKey (items payloadA)) = Some (1, Some (1000 + 300000))"
    using m by blast+
  have a1: "tasks (fst (run sys0 arrived)) =
     [(''r'', payloadA, Inl AwaitGet), (''a'', payloadA, Inl AwaitGet)]"
    using a by blast
  show ?thesis
    by (intro conjI hyp1[THEN conjunct1] hyp1[THEN conjunct2, THEN conjunct1]
        hyp1[THEN conjunct2, THEN conjunct2] o k m1 m2 other_submission_later within after
        a1 r0 r1)
qed

end
